theory Spec2Isabelle
  imports Complex_Main "HOL-Library.Word" "HOL-Library.Multiset" "HOL-Library.AList"
    "HOL-Library.Log_Nat"
begin

unbundle bit_operations_syntax

section \<open>JavaScript values\<close>

text \<open>
  A JavaScript string is a sequence of UTF-16 code units; \<open>charCodeAt\<close> reads one of them
  as a number between 0 and 65535. String literals of the source are ASCII and are written
  through \<open>js\<close>.
\<close>

type_synonym jsstring = "16 word list"

definition js :: "string \<Rightarrow> jsstring" where
  "js s = map (\<lambda>c. of_nat (of_char c)) s"

definition charCode :: "16 word \<Rightarrow> int" where
  "charCode c = uint c"

text \<open>
  \<open>seed + '|' + attempt\<close> appends the decimal representation of the loop counter.
  The counter stays below 7, so the representation is the single digit with code \<open>48 + attempt\<close>.
\<close>

definition digitString :: "nat \<Rightarrow> jsstring" where
  "digitString d = [of_nat (48 + d)]"

text \<open>
  \<open>ToInt32\<close> is the conversion that the bitwise operators \<open><<\<close> and \<open>&\<close> apply to
  their operands and that their results satisfy: the integer is reduced modulo \<open>2^32\<close> into
  the range \<open>-2^31 .. 2^31 - 1\<close>.
\<close>

definition ToInt32 :: "int \<Rightarrow> int" where
  "ToInt32 x = (x + 2 ^ 31) mod 2 ^ 32 - 2 ^ 31"

definition shiftLeft :: "int \<Rightarrow> nat \<Rightarrow> int" where
  "shiftLeft x n = ToInt32 (ToInt32 x * 2 ^ (n mod 32))"

definition bitAnd :: "int \<Rightarrow> int \<Rightarrow> int" where
  "bitAnd x y = ToInt32 x AND ToInt32 y"

text \<open>
  A JavaScript number is an IEEE-754 double. Integers of magnitude up to \<open>2^53\<close> are doubles,
  and sums, differences and products of them that stay in this range are exact; the model
  computes those in \<open>int\<close>. The quotient in \<open>next\<close> and the product in
  \<open>shuffle\<close> are not integers: they are rounded to the nearest double, ties to the even
  significand. \<open>fl\<close> is this rounding on the rationals, with 53 significant bits (the exponent
  range of doubles is not reached by the values of this program).
\<close>

definition round_half_even :: "rat \<Rightarrow> int" where
  "round_half_even q =
     (let f = \<lfloor>q\<rfloor>; d = q - of_int f
      in if d < 1 / 2 then f else if 1 / 2 < d then f + 1 else if even f then f else f + 1)"

definition binade :: "rat \<Rightarrow> int" where
  "binade q = (if 1 \<le> q then bitlen \<lfloor>q\<rfloor> - 1 else - bitlen (\<lceil>1 / q\<rceil> - 1))"

definition fl :: "rat \<Rightarrow> rat" where
  "fl q =
     (if q = 0 then 0
      else let u = 2 powi (binade \<bar>q\<bar> - 52)
           in sgn q * of_int (round_half_even (\<bar>q\<bar> / u)) * u)"

section \<open>SeededRandom\<close>

text \<open>
  The generator's only field is the number \<open>seed\<close>; an instance is its value.
  The constructor folds the seed string, one code unit after the other:
  \<^verbatim>\<open>hash = ((hash << 5) - hash) + char; hash = hash & hash;\<close> and stores \<open>Math.abs(hash)\<close>.
\<close>

definition hashStep :: "int \<Rightarrow> int \<Rightarrow> int" where
  "hashStep hash char = (let h = (shiftLeft hash 5 - hash) + char in bitAnd h h)"

fun hashLoop :: "jsstring \<Rightarrow> int \<Rightarrow> int" where
  "hashLoop [] hash = hash"
| "hashLoop (c # cs) hash = hashLoop cs (hashStep hash (charCode c))"

definition SeededRandom :: "jsstring \<Rightarrow> int" where
  "SeededRandom seed = \<bar>hashLoop seed 0\<bar>"

text \<open>
  \<open>next\<close> advances the state and returns the quotient together with the new state.
  The operator \<open>%\<close> takes the sign of the dividend.
\<close>

definition remainder :: "int \<Rightarrow> int \<Rightarrow> int" where
  "remainder a b = sgn a * (\<bar>a\<bar> mod \<bar>b\<bar>)"

definition nextState :: "int \<Rightarrow> int" where
  "nextState s = remainder (s * 9301 + 49297) 233280"

definition next_value :: "int \<Rightarrow> rat \<times> int" where
  "next_value s = (let s' = nextState s in (fl (of_int s' / 233280), s'))"

text \<open>
  \<open>shuffle\<close> copies the array and runs \<open>i\<close> from \<open>length - 1\<close> down to 1, exchanging
  \<open>result[i]\<close> and \<open>result[j]\<close> by a destructuring assignment. It returns the copy; the
  generator's state after the call is returned with it.
\<close>

definition swap_at :: "nat \<Rightarrow> nat \<Rightarrow> 'a list \<Rightarrow> 'a list" where
  "swap_at i j xs = (xs[i := xs ! j])[j := xs ! i]"

definition drawIndex :: "rat \<Rightarrow> nat \<Rightarrow> nat" where
  "drawIndex r i = nat \<lfloor>fl (r * of_nat (i + 1))\<rfloor>"

fun shuffleLoop :: "nat \<Rightarrow> 'a list \<Rightarrow> int \<Rightarrow> 'a list \<times> int" where
  "shuffleLoop 0 result s = (result, s)"
| "shuffleLoop (Suc k) result s =
     (let (r, s') = next_value s; j = drawIndex r (Suc k)
      in shuffleLoop k (swap_at (Suc k) j result) s')"

definition shuffle :: "int \<Rightarrow> 'a list \<Rightarrow> 'a list \<times> int" where
  "shuffle s array = shuffleLoop (length array - 1) array s"

section \<open>matchWishes\<close>

text \<open>
  The fields of \<open>Player\<close> and \<open>Wish\<close> that \<open>matchWishes\<close> reads. The optional
  \<open>group\<close> is absent (\<open>None\<close>) or a string.
\<close>

record Player =
  p_id :: jsstring
  p_name :: jsstring
  p_group :: "jsstring option"

record Wish =
  w_id :: jsstring
  w_ownerId :: jsstring

record MatchPair =
  pickerId :: jsstring
  wishId :: jsstring

text \<open>
  The two \<open>throw\<close> statements, and the \<open>TypeError\<close> that JavaScript raises where a
  property of \<open>undefined\<close> is read or \<open>undefined\<close> is iterated (the result of a
  \<open>Map.get\<close> that the source marks with \<open>!\<close>).
\<close>

datatype error = NoCandidates jsstring | Exhausted | TypeError

text \<open>
  A \<open>Map\<close> keeps its entries in insertion order; \<open>set\<close> on a present key replaces the
  value in place, on a new key it appends. It is an association list with distinct keys:
  \<open>get\<close> is \<open>map_of\<close>, \<open>set\<close> is \<open>AList.update\<close>, \<open>entries()\<close> is the list
  itself, and \<open>new Map(entries)\<close> sets the entries one after the other.
\<close>

definition new_Map :: "('k \<times> 'v) list \<Rightarrow> ('k \<times> 'v) list" where
  "new_Map entries = fold (\<lambda>(k, v). AList.update k v) entries []"

text \<open>\<open>x || 'A'\<close>: the string \<open>x\<close> unless it is \<open>undefined\<close> or empty.\<close>

definition orA :: "jsstring option \<Rightarrow> jsstring" where
  "orA x = (case x of None \<Rightarrow> js ''A'' | Some g \<Rightarrow> if g = [] then js ''A'' else g)"

definition groupOf :: "Player list \<Rightarrow> (jsstring \<times> jsstring) list" where
  "groupOf players = new_Map (map (\<lambda>p. (p_id p, orA (p_group p))) players)"

definition wishById :: "Wish list \<Rightarrow> (jsstring \<times> Wish) list" where
  "wishById wishes = new_Map (map (\<lambda>w. (w_id w, w)) wishes)"

definition allWishIds :: "Wish list \<Rightarrow> jsstring list" where
  "allWishIds wishes = map w_id wishes"

text \<open>The predicate of the \<open>filter\<close> call, and a filter that stops at the first error.\<close>

definition eligible ::
  "(jsstring \<times> jsstring) list \<Rightarrow> (jsstring \<times> Wish) list \<Rightarrow> Player \<Rightarrow> jsstring \<Rightarrow> error + bool" where
  "eligible gOf wById p wid =
     (let myGroup = orA (map_of gOf (p_id p))
      in case map_of wById wid of
           None \<Rightarrow> Inl TypeError
         | Some w \<Rightarrow>
             (let ownerGroup = orA (map_of gOf (w_ownerId w))
              in Inr (w_ownerId w \<noteq> p_id p \<and> ownerGroup \<noteq> myGroup)))"

fun filter_result :: "('a \<Rightarrow> error + bool) \<Rightarrow> 'a list \<Rightarrow> error + 'a list" where
  "filter_result P [] = Inr []"
| "filter_result P (x # xs) =
     (case P x of
        Inl e \<Rightarrow> Inl e
      | Inr b \<Rightarrow>
          (case filter_result P xs of
             Inl e \<Rightarrow> Inl e
           | Inr ys \<Rightarrow> Inr (if b then x # ys else ys)))"

text \<open>
  The loop over the players that fills \<open>candidates\<close>: an empty list throws, a non-empty one
  is shuffled by a generator seeded with the attempt seed, \<open>#cand#\<close> and the player's id.
\<close>

fun buildCandidates ::
  "(jsstring \<times> jsstring) list \<Rightarrow> (jsstring \<times> Wish) list \<Rightarrow> jsstring list \<Rightarrow> jsstring \<Rightarrow>
   Player list \<Rightarrow> (jsstring \<times> jsstring list) list \<Rightarrow> error + (jsstring \<times> jsstring list) list" where
  "buildCandidates gOf wById ids attemptSeed [] candidates = Inr candidates"
| "buildCandidates gOf wById ids attemptSeed (p # ps) candidates =
     (case filter_result (eligible gOf wById p) ids of
        Inl e \<Rightarrow> Inl e
      | Inr list \<Rightarrow>
          if list = [] then Inl (NoCandidates (p_name p))
          else let shuffled = fst (shuffle (SeededRandom (attemptSeed @ js ''#cand#'' @ p_id p)) list)
               in buildCandidates gOf wById ids attemptSeed ps (AList.update (p_id p) shuffled candidates))"

text \<open>
  The two maps that \<open>tryMatch\<close> updates. The set \<open>seen\<close> is an object shared by a
  top-level call and all calls below it, so every call returns it with the state.
\<close>

record match_state =
  wishAssignedTo :: "(jsstring \<times> jsstring) list"
  pickerAssignedWish :: "(jsstring \<times> jsstring) list"

definition assign :: "jsstring \<Rightarrow> jsstring \<Rightarrow> match_state \<Rightarrow> match_state" where
  "assign wid picker st =
     st\<lparr>wishAssignedTo := AList.update wid picker (wishAssignedTo st),
        pickerAssignedWish := AList.update picker wid (pickerAssignedWish st)\<rparr>"

text \<open>
  \<open>tryMatch_for\<close> is the \<open>for\<close> loop of \<open>tryMatch\<close> over the options that are left;
  the recursive call of \<open>tryMatch\<close> on the current holder is the lookup of the holder's
  options followed by the loop over them. \<open>!cur\<close> holds when the wish has no entry, and
  also when the entry is the empty string.
\<close>

function tryMatch_for ::
  "(jsstring \<times> jsstring list) list \<Rightarrow> jsstring \<Rightarrow> jsstring list \<Rightarrow> jsstring set \<Rightarrow> match_state \<Rightarrow>
   error + (bool \<times> jsstring set \<times> match_state)" where
  "tryMatch_for candidates picker [] seen st = Inr (False, seen, st)"
| "tryMatch_for candidates picker (wid # opts) seen st =
     (if wid \<in> seen then tryMatch_for candidates picker opts seen st
      else
        case map_of (wishAssignedTo st) wid of
          None \<Rightarrow> Inr (True, insert wid seen, assign wid picker st)
        | Some cur \<Rightarrow>
            if cur = [] then Inr (True, insert wid seen, assign wid picker st)
            else
              (case map_of candidates cur of
                 None \<Rightarrow> Inl TypeError
               | Some curOpts \<Rightarrow>
                   (case tryMatch_for candidates cur curOpts (insert wid seen) st of
                      Inl e \<Rightarrow> Inl e
                    | Inr (ok, seen', st') \<Rightarrow>
                        if ok then Inr (True, seen', assign wid picker st')
                        else tryMatch_for candidates picker opts seen' st')))"
  by pat_completeness auto

definition tryMatch ::
  "(jsstring \<times> jsstring list) list \<Rightarrow> jsstring \<Rightarrow> jsstring set \<Rightarrow> match_state \<Rightarrow>
   error + (bool \<times> jsstring set \<times> match_state)" where
  "tryMatch candidates picker seen st =
     (case map_of candidates picker of
        None \<Rightarrow> Inl TypeError
      | Some opts \<Rightarrow> tryMatch_for candidates picker opts seen st)"

text \<open>
  The loop over \<open>playerOrder\<close>: every player starts with a fresh \<open>seen\<close>; the first
  failure leaves the loop with \<open>okAll = false\<close>.
\<close>

fun matchAll ::
  "(jsstring \<times> jsstring list) list \<Rightarrow> jsstring list \<Rightarrow> match_state \<Rightarrow> error + (bool \<times> match_state)" where
  "matchAll candidates [] st = Inr (True, st)"
| "matchAll candidates (pid # rest) st =
     (case tryMatch candidates pid {} st of
        Inl e \<Rightarrow> Inl e
      | Inr (ok, seen, st') \<Rightarrow> if ok then matchAll candidates rest st' else Inr (False, st'))"

text \<open>
  One pass of the body of the attempt loop: \<open>Inl\<close> is a thrown error, \<open>Inr (Some pairs)\<close>
  the \<open>return pairs\<close>, and \<open>Inr None\<close> the end of the body with \<open>okAll = false\<close>.
\<close>

definition attemptSeed :: "jsstring \<Rightarrow> nat \<Rightarrow> jsstring" where
  "attemptSeed seed attempt = seed @ js ''|'' @ digitString attempt"

definition runAttempt :: "Player list \<Rightarrow> Wish list \<Rightarrow> jsstring \<Rightarrow> nat \<Rightarrow> error + MatchPair list option" where
  "runAttempt players wishes seed attempt =
     (case buildCandidates (groupOf players) (wishById wishes) (allWishIds wishes)
             (attemptSeed seed attempt) players [] of
        Inl e \<Rightarrow> Inl e
      | Inr candidates \<Rightarrow>
          (let playerOrder = fst (shuffle (SeededRandom (attemptSeed seed attempt @ js ''#order''))
                                   (map p_id players))
           in case matchAll candidates playerOrder \<lparr>wishAssignedTo = [], pickerAssignedWish = []\<rparr> of
                Inl e \<Rightarrow> Inl e
              | Inr (okAll, st) \<Rightarrow>
                  if okAll
                  then Inr (Some (map (\<lambda>(picker, wid). \<lparr>pickerId = picker, wishId = wid\<rparr>)
                                    (pickerAssignedWish st)))
                  else Inr None))"

function matchLoop :: "Player list \<Rightarrow> Wish list \<Rightarrow> jsstring \<Rightarrow> nat \<Rightarrow> error + MatchPair list" where
  "matchLoop players wishes seed attempt =
     (if attempt < 7
      then case runAttempt players wishes seed attempt of
             Inl e \<Rightarrow> Inl e
           | Inr (Some pairs) \<Rightarrow> Inr pairs
           | Inr None \<Rightarrow> matchLoop players wishes seed (attempt + 1)
      else Inl Exhausted)"
  by pat_completeness auto
termination
  by (relation "measure (\<lambda>(players, wishes, seed, attempt). 7 - attempt)") auto

definition matchWishes :: "Player list \<Rightarrow> Wish list \<Rightarrow> jsstring \<Rightarrow> error + MatchPair list" where
  "matchWishes players wishes seed = matchLoop players wishes seed 0"

declare matchLoop.simps [simp del]

section \<open>The seed hash as the specification words it\<close>

text \<open>
  The recurrence \<open>h = (h*31 + charCode) mod 2^32\<close>, its result read as a 32-bit signed
  integer, over every code unit of the seed.
\<close>

definition asSigned32 :: "int \<Rightarrow> int" where
  "asSigned32 u = (if u < 2 ^ 31 then u else u - 2 ^ 32)"

definition polyStep :: "int \<Rightarrow> int \<Rightarrow> int" where
  "polyStep h c = asSigned32 ((h * 31 + c) mod 2 ^ 32)"

fun polyHash :: "jsstring \<Rightarrow> int \<Rightarrow> int" where
  "polyHash [] h = h"
| "polyHash (c # cs) h = polyHash cs (polyStep h (charCode c))"

section \<open>The shuffle step as the specification words it\<close>

text \<open>
  The sequence in which the elements at the positions \<open>i\<close> and \<open>j\<close> have changed
  places and every other position keeps its element.
\<close>

definition exchanged :: "nat \<Rightarrow> nat \<Rightarrow> 'a list \<Rightarrow> 'a list" where
  "exchanged i j xs =
     map (\<lambda>k. if k = i then xs ! j else if k = j then xs ! i else xs ! k) [0..<length xs]"

section \<open>Notions used to state the claims\<close>

text \<open>
  The candidate list of a player before it is shuffled: the wish ids that pass the filter.
\<close>

definition candidateIds :: "Player list \<Rightarrow> Wish list \<Rightarrow> Player \<Rightarrow> jsstring list" where
  "candidateIds players wishes p =
     filter (\<lambda>wid. eligible (groupOf players) (wishById wishes) p wid = Inr True) (allWishIds wishes)"

text \<open>
  The search with a bound on the nesting of \<open>tryMatch\<close> calls: \<open>None\<close> when a call would
  be nested deeper than \<open>n\<close> levels below the first one.
\<close>

fun tryMatch_depth ::
  "nat \<Rightarrow> (jsstring \<times> jsstring list) list \<Rightarrow> jsstring \<Rightarrow> jsstring list \<Rightarrow> jsstring set \<Rightarrow> match_state \<Rightarrow>
   (error + (bool \<times> jsstring set \<times> match_state)) option" where
  "tryMatch_depth n candidates picker [] seen st = Some (Inr (False, seen, st))"
| "tryMatch_depth n candidates picker (wid # opts) seen st =
     (if wid \<in> seen then tryMatch_depth n candidates picker opts seen st
      else
        case map_of (wishAssignedTo st) wid of
          None \<Rightarrow> Some (Inr (True, insert wid seen, assign wid picker st))
        | Some cur \<Rightarrow>
            if cur = [] then Some (Inr (True, insert wid seen, assign wid picker st))
            else
              (case map_of candidates cur of
                 None \<Rightarrow> Some (Inl TypeError)
               | Some curOpts \<Rightarrow>
                   (case n of
                      0 \<Rightarrow> None
                    | Suc m \<Rightarrow>
                        (case tryMatch_depth m candidates cur curOpts (insert wid seen) st of
                           None \<Rightarrow> None
                         | Some (Inl e) \<Rightarrow> Some (Inl e)
                         | Some (Inr (ok, seen', st')) \<Rightarrow>
                             if ok then Some (Inr (True, seen', assign wid picker st'))
                             else tryMatch_depth n candidates picker opts seen' st'))))"

text \<open>The entry that the candidate loop stores for a player.\<close>

definition shuffledCandidates :: "Player list \<Rightarrow> Wish list \<Rightarrow> jsstring \<Rightarrow> Player \<Rightarrow> jsstring list" where
  "shuffledCandidates players wishes aseed p =
     fst (shuffle (SeededRandom (aseed @ js ''#cand#'' @ p_id p)) (candidateIds players wishes p))"


text \<open>
  The successful and failing runs of the loop of \<open>tryMatch\<close> as a relation between the
  arguments and the result: one rule for the end of the options, one for a wish already seen,
  one for a wish that \<open>!cur\<close> lets the picker take at once, one for a wish whose holder
  was moved away, and one for a wish whose holder could not be moved.
\<close>

inductive search ::
  "(jsstring \<times> jsstring list) list \<Rightarrow> jsstring \<Rightarrow> jsstring list \<Rightarrow> jsstring set \<Rightarrow> match_state \<Rightarrow>
   bool \<Rightarrow> jsstring set \<Rightarrow> match_state \<Rightarrow> bool"
  for c :: "(jsstring \<times> jsstring list) list" where
  Nil: "search c p [] seen st False seen st"
| Skip: "wid \<in> seen \<Longrightarrow> search c p opts seen st ok seen' st' \<Longrightarrow>
         search c p (wid # opts) seen st ok seen' st'"
| Free: "wid \<notin> seen \<Longrightarrow>
         map_of (wishAssignedTo st) wid = None \<or> map_of (wishAssignedTo st) wid = Some [] \<Longrightarrow>
         search c p (wid # opts) seen st True (insert wid seen) (assign wid p st)"
| Steal: "wid \<notin> seen \<Longrightarrow> map_of (wishAssignedTo st) wid = Some cur \<Longrightarrow> cur \<noteq> [] \<Longrightarrow>
          map_of c cur = Some curOpts \<Longrightarrow>
          search c cur curOpts (insert wid seen) st True seen1 st1 \<Longrightarrow>
          search c p (wid # opts) seen st True seen1 (assign wid p st1)"
| Retry: "wid \<notin> seen \<Longrightarrow> map_of (wishAssignedTo st) wid = Some cur \<Longrightarrow> cur \<noteq> [] \<Longrightarrow>
          map_of c cur = Some curOpts \<Longrightarrow>
          search c cur curOpts (insert wid seen) st False seen1 st1 \<Longrightarrow>
          search c p opts seen1 st1 ok seen' st' \<Longrightarrow>
          search c p (wid # opts) seen st ok seen' st'"

text \<open>
  A perfect matching in the eligibility graph: one wish id for every participant of the list,
  no wish id twice, each among the participant's candidates.
\<close>

definition perfect_matching :: "Player list \<Rightarrow> Wish list \<Rightarrow> jsstring list \<Rightarrow> bool" where
  "perfect_matching players wishes ms \<longleftrightarrow>
     distinct ms \<and> list_all2 (\<lambda>p wid. wid \<in> set (candidateIds players wishes p)) players ms"

text \<open>The pickers that hold a wish, with multiplicity.\<close>

definition holders :: "match_state \<Rightarrow> jsstring multiset" where
  "holders st = image_mset snd (mset (wishAssignedTo st))"

text \<open>
  The group label that the engine uses for a participant id: the entry of \<open>groupOf\<close>, and
  \<open>'A'\<close> when there is none or it is empty.
\<close>

definition groupLabel :: "Player list \<Rightarrow> jsstring \<Rightarrow> jsstring" where
  "groupLabel players pid = orA (map_of (groupOf players) pid)"

text \<open>
  The state of an attempt is consistent when every entry of \<open>pickerAssignedWish\<close> is backed
  by \<open>wishAssignedTo\<close>, names a picker with a non-empty id and a wish among the picker's
  candidates, and no wish is held by the empty id. It is keyed when every holder of a wish has
  an entry in \<open>pickerAssignedWish\<close>.
\<close>

definition consistent :: "(jsstring \<times> jsstring list) list \<Rightarrow> match_state \<Rightarrow> bool" where
  "consistent c st \<longleftrightarrow>
     (\<forall>r w. map_of (pickerAssignedWish st) r = Some w \<longrightarrow>
        map_of (wishAssignedTo st) w = Some r \<and> r \<noteq> [] \<and> (\<exists>ro. map_of c r = Some ro \<and> w \<in> set ro))
     \<and> (\<forall>w r. map_of (wishAssignedTo st) w = Some r \<longrightarrow> r \<noteq> [])"

definition keyed :: "match_state \<Rightarrow> bool" where
  "keyed st \<longleftrightarrow> snd ` set (wishAssignedTo st) \<subseteq> fst ` set (pickerAssignedWish st)"

text \<open>A room with a participant whose id is the empty string.\<close>

definition emptyIdPlayers :: "Player list" where
  "emptyIdPlayers =
     [\<lparr>p_id = js [], p_name = js ''E'', p_group = Some (js ''A'')\<rparr>,
      \<lparr>p_id = js ''x'', p_name = js ''X'', p_group = Some (js ''A'')\<rparr>,
      \<lparr>p_id = js ''y'', p_name = js ''Y'', p_group = Some (js ''B'')\<rparr>]"

definition emptyIdWishes :: "Wish list" where
  "emptyIdWishes = [\<lparr>w_id = js ''w1'', w_ownerId = js ''y''\<rparr>, \<lparr>w_id = js ''w2'', w_ownerId = js ''x''\<rparr>]"

text \<open>The same participants with a third wish, so that a perfect matching exists.\<close>

definition threeWishes :: "Wish list" where
  "threeWishes =
     [\<lparr>w_id = js ''w1'', w_ownerId = js ''y''\<rparr>, \<lparr>w_id = js ''w2'', w_ownerId = js ''x''\<rparr>,
      \<lparr>w_id = js ''w3'', w_ownerId = js ''y''\<rparr>]"

text \<open>Example inputs: the scenario of the source's self test, and a single-group room.\<close>

definition alice :: Player where
  "alice = \<lparr>p_id = js ''A'', p_name = js ''Alice'', p_group = Some (js ''A'')\<rparr>"

definition bob :: Player where
  "bob = \<lparr>p_id = js ''B'', p_name = js ''Bob'', p_group = Some (js ''B'')\<rparr>"

definition bob_in_A :: Player where
  "bob_in_A = \<lparr>p_id = js ''B'', p_name = js ''Bob'', p_group = None\<rparr>"

definition selfTestWishes :: "Wish list" where
  "selfTestWishes =
     [\<lparr>w_id = js ''wA1'', w_ownerId = js ''A''\<rparr>, \<lparr>w_id = js ''wA2'', w_ownerId = js ''A''\<rparr>,
      \<lparr>w_id = js ''wB1'', w_ownerId = js ''B''\<rparr>, \<lparr>w_id = js ''wB2'', w_ownerId = js ''B''\<rparr>]"

text \<open>A state in which the only wish has a holder, and the candidate lists of two pickers.\<close>

definition heldCandidates :: "(jsstring \<times> jsstring list) list" where
  "heldCandidates = [(js ''A'', [js ''wB1'']), (js ''C'', [js ''wB1''])]"

definition heldState :: match_state where
  "heldState = \<lparr>wishAssignedTo = [(js ''wB1'', js ''A'')], pickerAssignedWish = [(js ''A'', js ''wB1'')]\<rparr>"

section \<open>Termination of the augmenting-path search\<close>

text \<open>
  A call never removes a wish from \<open>seen\<close>. With this, every recursive call has fewer unseen
  wishes among those that occur in \<open>candidates\<close> and the options left, or the same and fewer
  options left.
\<close>

lemma tryMatch_for_seen_dom:
  "tryMatch_for_dom (candidates, picker, opts, seen, st) \<Longrightarrow>
   tryMatch_for candidates picker opts seen st = Inr (ok, seen', st') \<Longrightarrow> seen \<subseteq> seen'"
proof (induction candidates picker opts seen st arbitrary: ok seen' st' rule: tryMatch_for.pinduct)
  case (1 candidates picker seen st)
  then show ?case by (simp add: tryMatch_for.psimps)
next
  case (2 candidates picker wid opts seen st)
  show ?case
  proof (cases "wid \<in> seen")
    case True
    with 2 show ?thesis by (simp add: tryMatch_for.psimps)
  next
    case False
    note unseen = this
    show ?thesis
    proof (cases "map_of (wishAssignedTo st) wid")
      case None
      with 2(1,5) unseen show ?thesis by (auto simp: tryMatch_for.psimps)
    next
      case (Some cur)
      note holder = this
      show ?thesis
      proof (cases "cur = []")
        case True
        with 2(1,5) unseen holder show ?thesis by (auto simp: tryMatch_for.psimps)
      next
        case False
        note cur = this
        show ?thesis
        proof (cases "map_of candidates cur")
          case None
          with 2(1,5) unseen holder cur show ?thesis by (simp add: tryMatch_for.psimps)
        next
          case (Some curOpts)
          note co = this
          show ?thesis
          proof (cases "tryMatch_for candidates cur curOpts (insert wid seen) st")
            case (Inl e)
            with 2(1,5) unseen holder cur co show ?thesis by (simp add: tryMatch_for.psimps)
          next
            case (Inr res)
            obtain ok1 seen1 st1 where res: "res = (ok1, seen1, st1)" by (cases res)
            have sub: "insert wid seen \<subseteq> seen1"
              using "2.IH"(2) [OF unseen holder cur co] Inr res by simp
            show ?thesis
            proof (cases ok1)
              case True
              with 2(1,5) unseen holder cur co Inr res sub show ?thesis
                by (auto simp: tryMatch_for.psimps)
            next
              case False
              have "seen1 \<subseteq> seen'"
                using "2.IH"(3) [OF unseen holder cur co Inr [unfolded res] _ _ False] 2(1,5)
                  unseen holder cur co Inr res False
                by (simp add: tryMatch_for.psimps)
              with sub show ?thesis by auto
            qed
          qed
        qed
      qed
    qed
  qed
qed

definition unseen_wishes ::
  "(jsstring \<times> jsstring list) list \<Rightarrow> jsstring list \<Rightarrow> jsstring set \<Rightarrow> nat" where
  "unseen_wishes candidates opts seen =
     card ((\<Union> (set ` snd ` set candidates) \<union> set opts) - seen)"

lemma unseen_wishes_rest:
  "unseen_wishes candidates opts seen \<le> unseen_wishes candidates (wid # opts) seen"
  unfolding unseen_wishes_def by (intro card_mono) auto

lemma unseen_wishes_nested:
  assumes "wid \<notin> seen" and "map_of candidates cur = Some curOpts"
  shows "unseen_wishes candidates curOpts (insert wid seen) < unseen_wishes candidates (wid # opts) seen"
proof -
  have "set curOpts \<subseteq> \<Union> (set ` snd ` set candidates)"
    using map_of_SomeD [OF assms(2)] by force
  then have "(\<Union> (set ` snd ` set candidates) \<union> set curOpts) - insert wid seen
        \<subset> (\<Union> (set ` snd ` set candidates) \<union> set (wid # opts)) - seen"
    using assms(1) by auto
  then show ?thesis
    unfolding unseen_wishes_def by (intro psubset_card_mono) simp_all
qed

lemma unseen_wishes_continue:
  "insert wid seen \<subseteq> seen' \<Longrightarrow>
   unseen_wishes candidates opts seen' \<le> unseen_wishes candidates (wid # opts) seen"
  unfolding unseen_wishes_def by (intro card_mono) auto

lemma tryMatch_for_total: "All tryMatch_for_dom"
proof (relation "(\<lambda>(candidates, picker, opts, seen, st). unseen_wishes candidates opts seen)
                   <*mlex*> measure (\<lambda>(candidates, picker, opts, seen, st). length opts)",
       goal_cases)
  case 1
  show ?case by (simp add: wf_mlex)
next
  case (2 candidates picker wid opts seen st)
  show ?case using unseen_wishes_rest [of candidates opts seen wid] by (auto simp: mlex_iff)
next
  case (3 candidates picker wid opts seen st cur curOpts)
  show ?case using unseen_wishes_nested [OF 3(1,4)] by (simp add: mlex_iff)
next
  case (4 candidates picker wid opts seen st cur curOpts res ok rest seen' st')
  have "insert wid seen \<subseteq> seen'"
    using tryMatch_for_seen_dom [OF 4(9)] 4(5) 4(6) [symmetric] 4(7) [symmetric] by simp
  then show ?case
    using unseen_wishes_continue [of wid seen seen' candidates opts] by (auto simp: mlex_iff)
qed

termination tryMatch_for
  by (rule tryMatch_for_total)

declare tryMatch_for.simps [simp del]

section \<open>Arithmetic of the generator\<close>

lemma ToInt32_signed: "ToInt32 x = signed_take_bit 31 x"
  by (simp add: ToInt32_def signed_take_bit_eq_take_bit_shift take_bit_eq_mod)

lemma ToInt32_cong: "a mod 2 ^ 32 = b mod 2 ^ 32 \<Longrightarrow> ToInt32 a = ToInt32 b"
  by (simp add: ToInt32_signed signed_take_bit_eq_iff_take_bit_eq take_bit_eq_mod)

lemma ToInt32_mod_eq: "ToInt32 x mod 2 ^ 32 = x mod 2 ^ 32"
  using take_bit_signed_take_bit [of 32 31 x] by (simp add: ToInt32_signed take_bit_eq_mod)

lemma ToInt32_range: "- (2 ^ 31) \<le> ToInt32 x \<and> ToInt32 x < 2 ^ 31"
  using signed_take_bit_int_less_exp [of 31 x] signed_take_bit_int_greater_eq_minus_exp [of 31 x]
  by (simp add: ToInt32_signed)

lemma ToInt32_idem: "ToInt32 (ToInt32 x) = ToInt32 x"
  by (rule ToInt32_cong) (rule ToInt32_mod_eq)

lemma bitAnd_self: "bitAnd h h = ToInt32 h"
  by (simp add: bitAnd_def)

lemma round_half_even_le: "of_int (round_half_even q) \<le> q + 1 / 2"
  unfolding round_half_even_def Let_def by (auto; linarith)

lemma round_half_even_ge: "q - 1 / 2 \<le> of_int (round_half_even q)"
  unfolding round_half_even_def Let_def by (auto; linarith)

lemma round_half_even_nonneg: "0 \<le> q \<Longrightarrow> 0 \<le> round_half_even q"
  unfolding round_half_even_def Let_def by (auto; linarith)

lemma binade_le:
  assumes "0 < q"
  shows "2 powi binade q \<le> q"
proof (cases "1 \<le> q")
  case True
  then have pos: "0 < \<lfloor>q\<rfloor>" by linarith
  from bitlen_bounds [OF pos] have b: "2 ^ nat (bitlen \<lfloor>q\<rfloor> - 1) \<le> \<lfloor>q\<rfloor>" by simp
  have "1 \<le> bitlen \<lfloor>q\<rfloor>" using pos by (simp add: bitlen_alt_def)
  then have "(2::rat) powi (bitlen \<lfloor>q\<rfloor> - 1) = 2 ^ nat (bitlen \<lfloor>q\<rfloor> - 1)"
    by (simp add: power_int_def)
  also have "\<dots> = of_int (2 ^ nat (bitlen \<lfloor>q\<rfloor> - 1))" by simp
  also have "\<dots> \<le> of_int \<lfloor>q\<rfloor>" using b by (simp only: of_int_le_iff)
  also have "\<dots> \<le> q" by simp
  finally show ?thesis using True by (simp add: binade_def)
next
  case False
  define c where "c = \<lceil>1 / q\<rceil>"
  have "1 < 1 / q" using False assms by simp
  then have c2: "0 < c - 1" unfolding c_def by linarith
  define k where "k = bitlen (c - 1)"
  from bitlen_bounds [OF c2] have "c - 1 < 2 ^ nat k" by (simp add: k_def)
  then have "c \<le> 2 ^ nat k" by simp
  then have "(of_int c :: rat) \<le> 2 ^ nat k" by simp
  moreover have "1 / q \<le> of_int c" unfolding c_def by simp
  ultimately have "1 / q \<le> 2 ^ nat k" by (rule order_trans [rotated])
  then have "1 / 2 ^ nat k \<le> q" using assms
    by (simp add: field_simps)
  moreover have "0 \<le> k" by (simp add: k_def bitlen_nonneg)
  then have "(2::rat) powi (- k) = 1 / 2 ^ nat k"
    by (simp add: power_int_def field_simps)
  ultimately show ?thesis using False by (simp add: binade_def c_def k_def)
qed

lemma fl_nonneg: "0 \<le> q \<Longrightarrow> 0 \<le> fl q"
  by (auto simp: fl_def Let_def intro!: mult_nonneg_nonneg round_half_even_nonneg divide_nonneg_nonneg)

lemma fl_upper:
  assumes "0 \<le> q"
  shows "fl q \<le> q * (1 + 1 / 2 ^ 53)"
proof (cases "q = 0")
  case True then show ?thesis by (simp add: fl_def)
next
  case False
  with assms have pos: "0 < q" by simp
  define u :: rat where "u = 2 powi (binade q - 52)"
  have upos: "0 < u" by (simp add: u_def)
  have "fl q = of_int (round_half_even (q / u)) * u"
    using pos by (simp add: fl_def u_def Let_def)
  also have "\<dots> \<le> (q / u + 1 / 2) * u"
    using round_half_even_le [of "q / u"] upos by (simp only: mult_le_cancel_right_pos)
  also have "\<dots> = q + u / 2" using upos by (simp add: field_simps)
  also have "u / 2 = 2 powi binade q / 2 ^ 53"
    by (simp add: u_def power_int_diff)
  also have "q + 2 powi binade q / 2 ^ 53 \<le> q + q / 2 ^ 53"
    using binade_le [OF pos] by (simp add: divide_right_mono)
  finally show ?thesis by (simp add: field_simps)
qed

lemma mod_times_cong: "a mod m = b mod m \<Longrightarrow> (a * k) mod m = (b * k) mod (m::int)"
  by (metis mod_mult_left_eq)

lemma mod_sub_add_cong: "a mod m = b mod m \<Longrightarrow> (a - h + c) mod m = (b - h + c) mod (m::int)"
  by (metis mod_add_left_eq mod_diff_left_eq)

lemma hashStep_ToInt32: "hashStep h c = ToInt32 (h * 31 + c)"
proof -
  have "ToInt32 (ToInt32 h * 32) mod 2 ^ 32 = (ToInt32 h * 32) mod 2 ^ 32"
    by (rule ToInt32_mod_eq)
  also have "\<dots> = (h * 32) mod 2 ^ 32"
    by (rule mod_times_cong) (rule ToInt32_mod_eq)
  finally have "(ToInt32 (ToInt32 h * 32) - h + c) mod 2 ^ 32 = (h * 32 - h + c) mod 2 ^ 32"
    by (rule mod_sub_add_cong)
  also have "h * 32 - h + c = h * 31 + c" by simp
  finally have "ToInt32 (ToInt32 (ToInt32 h * 32) - h + c) = ToInt32 (h * 31 + c)"
    by (rule ToInt32_cong)
  then show ?thesis
    by (simp add: hashStep_def shiftLeft_def bitAnd_self Let_def)
qed

lemma fl_lower:
  assumes "0 \<le> q"
  shows "q * (1 - 1 / 2 ^ 53) \<le> fl q"
proof (cases "q = 0")
  case True then show ?thesis by (simp add: fl_def)
next
  case False
  with assms have pos: "0 < q" by simp
  define u :: rat where "u = 2 powi (binade q - 52)"
  have upos: "0 < u" by (simp add: u_def)
  have "u / 2 = 2 powi binade q / 2 ^ 53"
    by (simp add: u_def power_int_diff)
  then have "q - q / 2 ^ 53 \<le> q - u / 2"
    using binade_le [OF pos] by (simp add: divide_right_mono)
  also have "\<dots> = (q / u - 1 / 2) * u" using upos by (simp add: field_simps)
  also have "\<dots> \<le> of_int (round_half_even (q / u)) * u"
    using round_half_even_ge [of "q / u"] upos by (simp only: mult_le_cancel_right_pos)
  also have "\<dots> = fl q"
    using pos by (simp add: fl_def u_def Let_def)
  finally show ?thesis by (simp add: field_simps)
qed

lemma ToInt32_asSigned32: "ToInt32 x = asSigned32 (x mod 2 ^ 32)"
proof -
  define r where "r = x mod 2 ^ 32"
  have r: "0 \<le> r" "r < 2 ^ 32" by (simp_all add: r_def)
  have e: "(x + 2 ^ 31) mod 2 ^ 32 = (r + 2 ^ 31) mod 2 ^ 32"
    unfolding r_def by (simp only: mod_add_left_eq)
  show ?thesis
  proof (cases "r < 2 ^ 31")
    case True
    then have "(r + 2 ^ 31) mod 2 ^ 32 = r + 2 ^ 31"
      using r by (intro mod_pos_pos_trivial) simp_all
    with True e show ?thesis by (simp add: ToInt32_def asSigned32_def r_def)
  next
    case False
    have "(r + 2 ^ 31) mod 2 ^ 32 = (r + 2 ^ 31 - 2 ^ 32) mod 2 ^ 32"
      by (simp only: minus_mod_self2)
    also have "\<dots> = r + 2 ^ 31 - 2 ^ 32"
      using r False by (intro mod_pos_pos_trivial) simp_all
    finally show ?thesis using False e by (simp add: ToInt32_def asSigned32_def r_def)
  qed
qed

lemma hashStep_polyStep: "hashStep h c = polyStep h c"
  by (simp add: hashStep_ToInt32 polyStep_def ToInt32_asSigned32)

lemma hashLoop_polyHash: "hashLoop cs h = polyHash cs h"
  by (induction cs arbitrary: h) (simp_all add: hashStep_polyStep)

lemma hashLoop_range:
  "- (2 ^ 31) \<le> h \<Longrightarrow> h \<le> 2 ^ 31 \<Longrightarrow> - (2 ^ 31) \<le> hashLoop cs h \<and> hashLoop cs h \<le> 2 ^ 31"
proof (induction cs arbitrary: h)
  case Nil
  then show ?case by simp
next
  case (Cons c cs)
  have "- (2 ^ 31) \<le> hashStep h (charCode c)" "hashStep h (charCode c) \<le> 2 ^ 31"
    using ToInt32_range [of "h * 31 + charCode c"] by (simp_all add: hashStep_ToInt32)
  then show ?case using Cons.IH by simp
qed

lemma SeededRandom_range: "0 \<le> SeededRandom seed \<and> SeededRandom seed \<le> 2 ^ 31"
  using hashLoop_range [of 0 seed] by (simp add: SeededRandom_def abs_le_iff)

lemma nextState_mod: "0 \<le> s \<Longrightarrow> nextState s = (s * 9301 + 49297) mod 233280"
  by (simp add: nextState_def remainder_def sgn_if abs_if)

lemma nextState_range: "0 \<le> s \<Longrightarrow> 0 \<le> nextState s \<and> nextState s < 233280"
  by (simp add: nextState_mod)

lemma reachable_range:
  "0 \<le> (nextState ^^ n) (SeededRandom seed) \<and> (nextState ^^ n) (SeededRandom seed) \<le> 2 ^ 31"
proof (induction n)
  case 0
  then show ?case using SeededRandom_range by simp
next
  case (Suc n)
  then show ?case
    using nextState_range [of "(nextState ^^ n) (SeededRandom seed)"] by simp
qed

lemma next_value_range:
  assumes "0 \<le> s"
  shows "0 \<le> fst (next_value s) \<and> fst (next_value s) \<le> 233279 / 233280 * (1 + 1 / 2 ^ 53)"
proof -
  define q :: rat where "q = of_int (nextState s) / 233280"
  have "0 \<le> nextState s" "nextState s \<le> 233279"
    using nextState_range [OF assms] by simp_all
  then have q: "0 \<le> q" "q \<le> 233279 / 233280"
    by (simp_all add: q_def)
  have "fl q \<le> q * (1 + 1 / 2 ^ 53)" using q(1) by (rule fl_upper)
  also have "\<dots> \<le> 233279 / 233280 * (1 + 1 / 2 ^ 53)"
    using q(2) by (intro mult_right_mono) simp_all
  finally show ?thesis using fl_nonneg [OF q(1)]
    by (simp add: next_value_def Let_def q_def)
qed

lemma drawIndex_le:
  assumes "0 \<le> r" and "r \<le> 233279 / 233280 * (1 + 1 / 2 ^ 53)"
  shows "drawIndex r i \<le> i"
proof -
  define y where "y = r * of_nat (i + 1)"
  have y: "0 \<le> y" using assms(1) by (simp add: y_def)
  have "fl y \<le> y * (1 + 1 / 2 ^ 53)" using y by (rule fl_upper)
  also have "\<dots> \<le> (233279 / 233280 * (1 + 1 / 2 ^ 53) * of_nat (i + 1)) * (1 + 1 / 2 ^ 53)"
    unfolding y_def using assms(2) by (intro mult_right_mono) simp_all
  also have "\<dots> = (233279 / 233280 * (1 + 1 / 2 ^ 53) * (1 + 1 / 2 ^ 53)) * of_nat (i + 1)"
    by simp
  also have "\<dots> < 1 * of_nat (i + 1)"
    by (intro mult_strict_right_mono) simp_all
  finally have "fl y < of_int (int i + 1)" by simp
  then have "\<lfloor>fl y\<rfloor> < int i + 1" by (simp only: floor_less_iff)
  then show ?thesis by (simp add: drawIndex_def y_def)
qed

lemma swap_at_mset: "i < length xs \<Longrightarrow> j < length xs \<Longrightarrow> mset (swap_at i j xs) = mset xs"
  unfolding swap_at_def by (rule mset_swap)

lemma shuffleLoop_mset:
  "0 \<le> s \<Longrightarrow> k < length res \<Longrightarrow> mset (fst (shuffleLoop k res s)) = mset res"
proof (induction k arbitrary: res s)
  case 0
  then show ?case by simp
next
  case (Suc k)
  obtain r s' where n: "next_value s = (r, s')" by (cases "next_value s")
  have r: "0 \<le> r \<and> r \<le> 233279 / 233280 * (1 + 1 / 2 ^ 53)"
    using next_value_range [OF Suc.prems(1)] n by simp
  have s': "0 \<le> s'"
    using nextState_range [OF Suc.prems(1)] n by (simp add: next_value_def Let_def)
  have j: "drawIndex r (Suc k) \<le> Suc k" using r by (simp add: drawIndex_le)
  let ?res = "swap_at (Suc k) (drawIndex r (Suc k)) res"
  have m: "mset ?res = mset res"
    using j Suc.prems(2) by (intro swap_at_mset) simp_all
  then have "length ?res = length res" by (metis size_mset)
  then have "mset (fst (shuffleLoop k ?res s')) = mset ?res"
    using Suc.prems(2) s' by (intro Suc.IH) simp_all
  then show ?case using n m by simp
qed

lemma shuffle_mset: "0 \<le> s \<Longrightarrow> mset (fst (shuffle s xs)) = mset xs"
  by (cases xs) (simp_all add: shuffle_def shuffleLoop_mset)

lemma swap_at_exchanged:
  assumes "i < length xs" and "j < length xs"
  shows "swap_at i j xs = exchanged i j xs"
proof (rule nth_equalityI)
  show "length (swap_at i j xs) = length (exchanged i j xs)"
    by (simp add: swap_at_def exchanged_def)
next
  fix k assume "k < length (swap_at i j xs)"
  then have k: "k < length xs" by (simp add: swap_at_def)
  then show "swap_at i j xs ! k = exchanged i j xs ! k"
    using assms by (auto simp: swap_at_def exchanged_def nth_list_update)
qed

section \<open>Claims about the generator\<close>

text \<open>
  C5. For every seed string the constructor's state is the absolute value of the polynomial
  hash \<open>h = (h*31 + charCode) mod 2^32\<close>, read as a 32-bit signed integer and folded over
  every code unit; the source's \<open>((hash << 5) - hash) + char\<close> followed by the 32-bit
  truncation is one step of that recurrence, for every accumulator and every code unit.
\<close>

theorem SeededRandom_polynomial_hash:
  "hashStep h c = polyStep h c \<and> SeededRandom seed = \<bar>polyHash seed 0\<bar>"
proof
  have "hashStep h c = ToInt32 (h * 31 + c)" by (rule hashStep_ToInt32)
  also have "\<dots> = asSigned32 ((h * 31 + c) mod 2 ^ 32)" by (rule ToInt32_asSigned32)
  finally show "hashStep h c = polyStep h c" by (simp add: polyStep_def)
next
  have "hashLoop seed 0 = polyHash seed 0" by (rule hashLoop_polyHash)
  then show "SeededRandom seed = \<bar>polyHash seed 0\<bar>" by (simp add: SeededRandom_def)
qed

text \<open>
  C6. In every state \<open>s\<close> that a generator reaches (any seed string, any number of calls),
  \<open>next\<close> moves to \<open>(s*9301 + 49297) mod 233280\<close> and returns the double nearest to the
  quotient of the new state by 233280, a value in \<open>[0,1)\<close>; the integer arithmetic is exact,
  since \<open>s*9301 + 49297\<close> stays below \<open>2^53\<close>.
\<close>

theorem next_value_lcg_unit_interval:
  "let s = (nextState ^^ n) (SeededRandom seed); (r, s') = next_value s
   in 0 \<le> s \<and> s * 9301 + 49297 < 2 ^ 53
      \<and> s' = (s * 9301 + 49297) mod 233280
      \<and> r = fl (of_int s' / 233280)
      \<and> \<bar>r - of_int s' / 233280\<bar> \<le> 1 / 2 ^ 53
      \<and> 0 \<le> r \<and> r < 1"
proof -
  define s where "s = (nextState ^^ n) (SeededRandom seed)"
  define s' where "s' = nextState s"
  define q :: rat where "q = of_int s' / 233280"
  have s: "0 \<le> s" "s \<le> 2 ^ 31" using reachable_range [of n seed] by (simp_all add: s_def)
  have "s * 9301 \<le> 2 ^ 31 * 9301" using s by (intro mult_right_mono) simp_all
  then have exact: "s * 9301 + 49297 < 2 ^ 53" by simp
  have s'eq: "s' = (s * 9301 + 49297) mod 233280" using s(1) by (simp add: s'_def nextState_mod)
  have "0 \<le> s'" "s' \<le> 233279" using nextState_range [OF s(1)] by (simp_all add: s'_def)
  then have q: "0 \<le> q" "q \<le> 1" by (simp_all add: q_def)
  have r: "0 \<le> fl q" "fl q \<le> 233279 / 233280 * (1 + 1 / 2 ^ 53)"
    using next_value_range [OF s(1)] by (simp_all add: next_value_def Let_def q_def s'_def)
  have "233279 / 233280 * (1 + 1 / 2 ^ 53) < (1::rat)" by simp
  with r(2) have lt: "fl q < 1" by (rule le_less_trans)
  define t :: rat where "t = q / 2 ^ 53"
  have "fl q - q \<le> t" using fl_upper [OF q(1)] by (simp add: t_def field_simps)
  moreover have "q - fl q \<le> t" using fl_lower [OF q(1)] by (simp add: t_def field_simps)
  ultimately have "\<bar>fl q - q\<bar> \<le> t" by linarith
  moreover have "t \<le> 1 / 2 ^ 53" using q(2) by (simp add: t_def divide_right_mono)
  ultimately have err: "\<bar>fl q - q\<bar> \<le> 1 / 2 ^ 53" by (rule order_trans)
  have nv: "next_value s = (fl q, s')" by (simp add: next_value_def Let_def q_def s'_def)
  show ?thesis
    unfolding s_def [symmetric] Let_def nv prod.case
    using s(1) exact s'eq r(1) lt err by (simp add: q_def)
qed

text \<open>
  C7. \<open>shuffle\<close> runs the loop from index \<open>length - 1\<close> down to 1 and stops at 0. At index
  \<open>i\<close> it draws \<open>j = floor(next() * (i + 1))\<close>, which never exceeds \<open>i\<close>, and goes
  on with the sequence in which the elements at \<open>i\<close> and \<open>j\<close> have changed places. For
  every list and every state that a generator reaches, the result has the length and the
  multiset of elements of the input.
\<close>

theorem shuffle_fisher_yates_permutation:
  "let s = (nextState ^^ n) (SeededRandom seed);
       (r, s') = next_value s;
       j = nat \<lfloor>fl (r * of_nat (Suc i + 1))\<rfloor>
   in shuffle s xs = shuffleLoop (length xs - 1) xs s
      \<and> shuffleLoop 0 xs s = (xs, s)
      \<and> j \<le> Suc i
      \<and> (Suc i < length xs \<longrightarrow>
            shuffleLoop (Suc i) xs s = shuffleLoop i (exchanged (Suc i) j xs) s')
      \<and> mset (fst (shuffle s xs)) = mset xs
      \<and> length (fst (shuffle s xs)) = length xs"
proof -
  define s where "s = (nextState ^^ n) (SeededRandom seed)"
  define j where "j = drawIndex (fst (next_value s)) (Suc i)"
  have s: "0 \<le> s" using reachable_range [of n seed] by (simp add: s_def)
  have m: "mset (fst (shuffle s xs)) = mset xs" using s by (rule shuffle_mset)
  then have l: "length (fst (shuffle s xs)) = length xs" by (metis size_mset)
  have j: "j \<le> Suc i"
    unfolding j_def using next_value_range [OF s] by (simp add: drawIndex_le)
  have step: "shuffleLoop (Suc i) xs s = shuffleLoop i (exchanged (Suc i) j xs) (snd (next_value s))"
    if "Suc i < length xs"
  proof -
    have "swap_at (Suc i) j xs = exchanged (Suc i) j xs"
      using that j by (intro swap_at_exchanged) simp_all
    then show ?thesis by (simp add: case_prod_beta Let_def j_def)
  qed
  show ?thesis
    unfolding s_def [symmetric] Let_def case_prod_beta
    using m l j step by (simp add: shuffle_def drawIndex_def j_def)
qed

theorem shuffle_fisher_yates_permutation_witness:
  "Suc 2 < length [10, 20, 30, 40 :: int]
   \<and> shuffleLoop (Suc 2) [10, 20, 30, 40 :: int] (SeededRandom (js ''s|0#order''))
       = shuffleLoop 2 [10, 40, 30, 20] 115243
   \<and> fst (shuffle (SeededRandom (js ''s|0#order'')) [10, 20, 30, 40 :: int]) = [40, 30, 10, 20]"
proof -
  let ?s = "SeededRandom (js ''s|0#order'')"
  have h: "Suc 2 < length [10, 20, 30, 40 :: int]" by simp
  have nv: "snd (next_value ?s) = 115243" by code_simp
  have j: "nat \<lfloor>fl (fst (next_value ?s) * 4)\<rfloor> = 1" by code_simp
  have e: "exchanged 3 (Suc 0) [10, 20, 30, 40 :: int] = [10, 40, 30, 20]" by code_simp
  have "shuffleLoop (Suc 2) [10, 20, 30, 40 :: int] ?s = shuffleLoop 2 [10, 40, 30, 20] 115243"
    using shuffle_fisher_yates_permutation [of 0 "js ''s|0#order''" 2 "[10, 20, 30, 40 :: int]"] h
    by (simp add: Let_def case_prod_beta nv j e del: shuffleLoop.simps)
  moreover have "fst (shuffle ?s [10, 20, 30, 40 :: int]) = [40, 30, 10, 20]" by code_simp
  ultimately show ?thesis using h by simp
qed

section \<open>The candidate loop and the attempt loop\<close>

lemma new_Map_keys_aux: "fst ` set (fold (\<lambda>(k, v). AList.update k v) es al) = fst ` set es \<union> fst ` set al"
  by (induction es arbitrary: al) (auto simp: dom_update split: prod.splits)

lemma new_Map_keys: "fst ` set (new_Map es) = fst ` set es"
  by (simp add: new_Map_def new_Map_keys_aux)

lemma wishById_defined: "wid \<in> set (allWishIds wishes) \<Longrightarrow> \<exists>w. map_of (wishById wishes) wid = Some w"
proof -
  assume "wid \<in> set (allWishIds wishes)"
  then have "wid \<in> fst ` set (wishById wishes)"
    by (force simp: wishById_def new_Map_keys allWishIds_def)
  then show ?thesis by (metis domIff dom_map_of_conv_image_fst not_Some_eq)
qed

lemma filter_result_Inr:
  "(\<And>x. x \<in> set xs \<Longrightarrow> \<exists>b. P x = Inr b) \<Longrightarrow> filter_result P xs = Inr (filter (\<lambda>x. P x = Inr True) xs)"
proof (induction xs)
  case Nil
  then show ?case by simp
next
  case (Cons x xs)
  obtain b where b: "P x = Inr b" using Cons.prems by auto
  have "filter_result P xs = Inr (filter (\<lambda>x. P x = Inr True) xs)"
    using Cons by simp
  with b show ?case by simp
qed

lemma filter_result_candidateIds:
  "filter_result (eligible (groupOf players) (wishById wishes) p) (allWishIds wishes)
     = Inr (candidateIds players wishes p)"
  unfolding candidateIds_def
proof (rule filter_result_Inr)
  fix x assume "x \<in> set (allWishIds wishes)"
  then obtain w where "map_of (wishById wishes) x = Some w" using wishById_defined by blast
  then show "\<exists>b. eligible (groupOf players) (wishById wishes) p x = Inr b"
    by (simp add: eligible_def Let_def)
qed

lemma buildCandidates_find:
  "buildCandidates (groupOf players) (wishById wishes) (allWishIds wishes) aseed ps cs =
     (case find (\<lambda>p. candidateIds players wishes p = []) ps of
        Some q \<Rightarrow> Inl (NoCandidates (p_name q))
      | None \<Rightarrow> Inr (fold (\<lambda>p. AList.update (p_id p) (shuffledCandidates players wishes aseed p)) ps cs))"
  by (induction ps arbitrary: cs)
     (simp_all add: filter_result_candidateIds shuffledCandidates_def Let_def split: option.splits)

lemma matchLoop_find:
  "a \<le> 7 \<Longrightarrow> matchLoop players wishes seed a =
     (case find (\<lambda>k. runAttempt players wishes seed k \<noteq> Inr None) [a..<7] of
        None \<Rightarrow> Inl Exhausted
      | Some k \<Rightarrow>
          (case runAttempt players wishes seed k of
             Inl e \<Rightarrow> Inl e
           | Inr (Some pairs) \<Rightarrow> Inr pairs
           | Inr None \<Rightarrow> Inl Exhausted))"
proof (induction "7 - a" arbitrary: a)
  case 0
  then have "a = 7" by simp
  then show ?case by (simp add: matchLoop.simps)
next
  case (Suc n)
  then have a: "a < 7" by simp
  then have up: "[a..<7] = a # [Suc a..<7]" by (simp add: upt_conv_Cons)
  have IH: "matchLoop players wishes seed (Suc a) =
     (case find (\<lambda>k. runAttempt players wishes seed k \<noteq> Inr None) [Suc a..<7] of
        None \<Rightarrow> Inl Exhausted
      | Some k \<Rightarrow>
          (case runAttempt players wishes seed k of
             Inl e \<Rightarrow> Inl e
           | Inr (Some pairs) \<Rightarrow> Inr pairs
           | Inr None \<Rightarrow> Inl Exhausted))"
    using Suc(1) [of "Suc a"] Suc(2) a by simp
  show ?case
    unfolding up
    by (subst matchLoop.simps) (auto simp: a IH split: sum.splits option.splits)
qed

section \<open>The search as a relation\<close>

lemma tryMatch_for_seen:
  "tryMatch_for candidates picker opts seen st = Inr (ok, seen', st') \<Longrightarrow> seen \<subseteq> seen'"
  by (rule tryMatch_for_seen_dom [OF tryMatch_for_total [THEN spec]])

lemma tryMatch_for_search:
  "tryMatch_for c p opts seen st = Inr (ok, seen', st') \<Longrightarrow> search c p opts seen st ok seen' st'"
proof (induction c p opts seen st arbitrary: ok seen' st' rule: tryMatch_for.induct)
  case (1 candidates picker seen st)
  then show ?case by (auto simp: tryMatch_for.simps intro: search.Nil)
next
  case (2 candidates picker wid opts seen st)
  note eq = "2.prems"
  show ?case
  proof (cases "wid \<in> seen")
    case True
    then show ?thesis using "2.IH"(1) [OF True] eq by (auto simp: tryMatch_for.simps intro: search.Skip)
  next
    case False
    note unseen = this
    show ?thesis
    proof (cases "map_of (wishAssignedTo st) wid")
      case None
      with unseen eq show ?thesis by (auto simp: tryMatch_for.simps intro: search.Free)
    next
      case (Some cur)
      note holder = this
      show ?thesis
      proof (cases "cur = []")
        case True
        with unseen holder eq show ?thesis by (auto simp: tryMatch_for.simps intro: search.Free)
      next
        case False
        note cur = this
        show ?thesis
        proof (cases "map_of candidates cur")
          case None
          with unseen holder cur eq show ?thesis by (simp add: tryMatch_for.simps)
        next
          case (Some curOpts)
          note co = this
          show ?thesis
          proof (cases "tryMatch_for candidates cur curOpts (insert wid seen) st")
            case (Inl e)
            with unseen holder cur co eq show ?thesis by (simp add: tryMatch_for.simps)
          next
            case (Inr res)
            obtain ok1 seen1 st1 where res: "res = (ok1, seen1, st1)" by (cases res)
            have nested: "search candidates cur curOpts (insert wid seen) st ok1 seen1 st1"
              using "2.IH"(2) [OF unseen holder cur co] Inr res by simp
            show ?thesis
            proof (cases ok1)
              case True
              then have "ok = True" "seen' = seen1" "st' = assign wid picker st1"
                using unseen holder cur co eq Inr res by (simp_all add: tryMatch_for.simps)
              then show ?thesis
                using search.Steal [OF unseen holder cur co] nested True by simp
            next
              case False
              have "tryMatch_for candidates picker opts seen1 st1 = Inr (ok, seen', st')"
                using unseen holder cur co eq Inr res False by (simp add: tryMatch_for.simps)
              then have "search candidates picker opts seen1 st1 ok seen' st'"
                using "2.IH"(3) [OF unseen holder cur co Inr [unfolded res] _ _ False] by simp
              then show ?thesis
                using search.Retry [OF unseen holder cur co] nested False by simp
            qed
          qed
        qed
      qed
    qed
  qed
qed




section \<open>Invariants of the search\<close>

lemma wishAssignedTo_assign [simp]:
  "wishAssignedTo (assign wid p st) = AList.update wid p (wishAssignedTo st)"
  by (simp add: assign_def)

lemma pickerAssignedWish_assign [simp]:
  "pickerAssignedWish (assign wid p st) = AList.update p wid (pickerAssignedWish st)"
  by (simp add: assign_def)

lemma mset_snd_update_None:
  "map_of al k = None \<Longrightarrow>
   image_mset snd (mset (AList.update k v al)) = add_mset v (image_mset snd (mset al))"
  by (induction al) (auto split: if_splits)

lemma mset_snd_update_Some:
  "map_of al k = Some v0 \<Longrightarrow>
   image_mset snd (mset (AList.update k v al)) = add_mset v (image_mset snd (mset al) - {#v0#})"
proof (induction al)
  case Nil
  then show ?case by simp
next
  case (Cons a al)
  obtain k' v' where a: "a = (k', v')" by (cases a)
  show ?case
  proof (cases "k' = k")
    case True
    with Cons.prems a show ?thesis by simp
  next
    case False
    with Cons.prems a have m: "map_of al k = Some v0" by simp
    then have "(k, v0) \<in> set al" by (rule map_of_SomeD)
    then have "v0 \<in># image_mset snd (mset al)" by force
    then obtain H0 where H0: "image_mset snd (mset al) = add_mset v0 H0"
      by (meson multi_member_split)
    have "image_mset snd (mset (AList.update k v (a # al)))
        = add_mset v' (image_mset snd (mset (AList.update k v al)))"
      using False a by simp
    also have "\<dots> = add_mset v' (add_mset v H0)"
      using Cons.IH [OF m] H0 by simp
    also have "\<dots> = add_mset v (image_mset snd (mset (a # al)) - {#v0#})"
      using H0 a by simp
    finally show ?thesis .
  qed
qed

lemma holders_assign_le: "holders (assign wid p st) \<subseteq># add_mset p (holders st)"
proof (cases "map_of (wishAssignedTo st) wid")
  case None
  then show ?thesis by (simp add: holders_def mset_snd_update_None)
next
  case (Some v0)
  then show ?thesis by (simp add: holders_def mset_snd_update_Some diff_subset_eq_self)
qed

lemma search_fail_state: "search c p opts seen st ok seen' st' \<Longrightarrow> \<not> ok \<Longrightarrow> st' = st"
  by (induction rule: search.induct) auto

lemma search_seen: "search c p opts seen st ok seen' st' \<Longrightarrow> seen \<subseteq> seen'"
  by (induction rule: search.induct) auto

lemma search_wa_seen:
  "search c p opts seen st ok seen' st' \<Longrightarrow> w \<in> seen \<Longrightarrow>
   map_of (wishAssignedTo st') w = map_of (wishAssignedTo st) w"
proof (induction rule: search.induct)
  case (Free wid seen st p opts)
  then show ?case by (auto simp: update_conv')
next
  case (Steal wid seen st cur curOpts seen1 st1 p opts)
  then show ?case by (auto simp: update_conv')
next
  case (Retry wid seen st cur curOpts seen1 st1 p opts ok seen' st')
  have "w \<in> seen1" using search_seen [OF Retry(5)] Retry.prems by auto
  then show ?case using Retry by auto
qed auto

lemma search_fail_closed:
  "search c p opts seen st ok seen' st' \<Longrightarrow> \<not> ok \<Longrightarrow>
   set opts \<subseteq> seen' \<and>
   (\<forall>w \<in> seen' - seen. \<exists>r ro. map_of (wishAssignedTo st) w = Some r \<and> r \<noteq> []
        \<and> map_of c r = Some ro \<and> set ro \<subseteq> seen')"
proof (induction rule: search.induct)
  case (Nil p seen st)
  then show ?case by simp
next
  case (Skip wid seen p opts st ok seen' st')
  then show ?case using search_seen [OF Skip(2)] by auto
next
  case (Free wid seen st p opts)
  then show ?case by simp
next
  case (Steal wid seen st cur curOpts seen1 st1 p opts)
  then show ?case by simp
next
  case (Retry wid seen st cur curOpts seen1 st1 p opts ok seen' st')
  have st1: "st1 = st" using search_fail_state [OF Retry(5)] by simp
  have s1: "insert wid seen \<subseteq> seen1" by (rule search_seen [OF Retry(5)])
  have s2: "seen1 \<subseteq> seen'" by (rule search_seen [OF Retry(6)])
  have n1: "set curOpts \<subseteq> seen1"
    and n2: "\<forall>w \<in> seen1 - insert wid seen. \<exists>r ro. map_of (wishAssignedTo st) w = Some r \<and> r \<noteq> []
        \<and> map_of c r = Some ro \<and> set ro \<subseteq> seen1"
    using Retry.IH(1) by simp_all
  have c1: "set opts \<subseteq> seen'"
    and c2: "\<forall>w \<in> seen' - seen1. \<exists>r ro. map_of (wishAssignedTo st) w = Some r \<and> r \<noteq> []
        \<and> map_of c r = Some ro \<and> set ro \<subseteq> seen'"
    using Retry.IH(2) [OF Retry.prems] st1 by simp_all
  have "set (wid # opts) \<subseteq> seen'" using c1 s1 s2 by auto
  moreover have "\<exists>r ro. map_of (wishAssignedTo st) w = Some r \<and> r \<noteq> []
        \<and> map_of c r = Some ro \<and> set ro \<subseteq> seen'" if w: "w \<in> seen' - seen" for w
  proof (cases "w = wid")
    case True
    then show ?thesis using Retry(2,3,4) n1 s2 by auto
  next
    case False
    show ?thesis
    proof (cases "w \<in> seen1")
      case True
      then have "w \<in> seen1 - insert wid seen" using False w by simp
      then obtain r ro where "map_of (wishAssignedTo st) w = Some r" "r \<noteq> []"
        "map_of c r = Some ro" "set ro \<subseteq> seen1" using n2 by blast
      then show ?thesis using s2 by auto
    next
      case False
      then have "w \<in> seen' - seen1" using w by simp
      then show ?thesis using c2 by blast
    qed
  qed
  ultimately show ?case by blast
qed

lemma search_holders:
  "search c p opts seen st ok seen' st' \<Longrightarrow> ok \<Longrightarrow> holders st' \<subseteq># add_mset p (holders st)"
proof (induction rule: search.induct)
  case (Nil p seen st)
  then show ?case by simp
next
  case (Skip wid seen p opts st ok seen' st')
  then show ?case by simp
next
  case (Free wid seen st p opts)
  show ?case by (rule holders_assign_le)
next
  case (Steal wid seen st cur curOpts seen1 st1 p opts)
  have "map_of (wishAssignedTo st1) wid = Some cur"
    using search_wa_seen [OF Steal(5), of wid] Steal(2) by simp
  then have "holders (assign wid p st1) = add_mset p (holders st1 - {#cur#})"
    by (simp add: holders_def mset_snd_update_Some)
  moreover have "holders st1 - {#cur#} \<subseteq># holders st"
    using Steal.IH by (simp add: subset_eq_diff_conv)
  ultimately show ?case by simp
next
  case (Retry wid seen st cur curOpts seen1 st1 p opts ok seen' st')
  have "st1 = st" using search_fail_state [OF Retry(5)] by simp
  then show ?case using Retry.IH(2) [OF Retry.prems] by simp
qed

lemma search_wa_distinct:
  "search c p opts seen st ok seen' st' \<Longrightarrow> distinct (map fst (wishAssignedTo st)) \<Longrightarrow>
   distinct (map fst (wishAssignedTo st'))"
  by (induction rule: search.induct) (auto simp: distinct_update)

lemma tryMatch_for_no_error:
  "(\<And>r. r \<in> snd ` set (wishAssignedTo st) \<Longrightarrow> r = [] \<or> (\<exists>ro. map_of c r = Some ro)) \<Longrightarrow>
   \<exists>res. tryMatch_for c p opts seen st = Inr res"
proof (induction c p opts seen st rule: tryMatch_for.induct)
  case (1 candidates picker seen st)
  show ?case by (auto simp: tryMatch_for.simps)
next
  case (2 candidates picker wid opts seen st)
  note dom = "2.prems"
  show ?case
  proof (cases "wid \<in> seen")
    case True
    then show ?thesis using "2.IH"(1) [OF True dom] by (auto simp: tryMatch_for.simps)
  next
    case False
    note unseen = this
    show ?thesis
    proof (cases "map_of (wishAssignedTo st) wid")
      case None
      with unseen show ?thesis by (auto simp: tryMatch_for.simps)
    next
      case (Some cur)
      note holder = this
      show ?thesis
      proof (cases "cur = []")
        case True
        with unseen holder show ?thesis by (auto simp: tryMatch_for.simps)
      next
        case False
        note cur = this
        have "cur \<in> snd ` set (wishAssignedTo st)"
          using map_of_SomeD [OF holder] by force
        then obtain curOpts where co: "map_of candidates cur = Some curOpts"
          using dom cur by blast
        obtain res where Inr: "tryMatch_for candidates cur curOpts (insert wid seen) st = Inr res"
          using "2.IH"(2) [OF unseen holder cur co dom] by blast
        obtain ok1 seen1 st1 where res: "res = (ok1, seen1, st1)" by (cases res)
        show ?thesis
        proof (cases ok1)
          case True
          then show ?thesis
            using unseen holder cur co Inr res by (auto simp: tryMatch_for.simps)
        next
          case False
          have "st1 = st"
            using search_fail_state [OF tryMatch_for_search [OF Inr [unfolded res]]] False by simp
          then have "\<exists>res. tryMatch_for candidates picker opts seen1 st1 = Inr res"
            using "2.IH"(3) [OF unseen holder cur co Inr [unfolded res] _ _ False] dom by simp
          then show ?thesis
            using unseen holder cur co Inr res False by (auto simp: tryMatch_for.simps)
        qed
      qed
    qed
  qed
qed

section \<open>A failed search shows that no perfect matching exists\<close>

lemma sub_mset_filter_self: "X \<subseteq># Y \<Longrightarrow> X \<subseteq># filter_mset (\<lambda>q. q \<in># X) Y"
  by (rule mset_subset_eqI) (auto simp: count_eq_zero_iff dest: mset_subset_eq_count)

lemma hall_violation:
  fixes M :: "('a \<times> 'b) list"
  assumes "distinct (map snd M)"
    and "X \<subseteq># image_mset fst (mset M)"
    and "\<And>q w. (q, w) \<in> set M \<Longrightarrow> q \<in># X \<Longrightarrow> w \<in> S"
    and "finite S"
  shows "size X \<le> card S"
proof -
  let ?M' = "filter (\<lambda>(q, w). q \<in># X) M"
  have "X \<subseteq># filter_mset (\<lambda>q. q \<in># X) (image_mset fst (mset M))"
    using assms(2) by (rule sub_mset_filter_self)
  also have "\<dots> = image_mset fst (mset ?M')"
    by (simp add: filter_mset_image_mset case_prod_beta)
  finally have "size X \<le> size (image_mset fst (mset ?M'))" by (rule size_mset_mono)
  then have 1: "size X \<le> length ?M'" by (simp del: mset_filter)
  have "distinct (map snd ?M')" using assms(1) by (rule distinct_map_filter)
  then have 2: "length ?M' = card (set (map snd ?M'))" by (metis distinct_card length_map)
  have "set (map snd ?M') \<subseteq> S" using assms(3) by auto
  then have "card (set (map snd ?M')) \<le> card S" using assms(4) by (rule card_mono [rotated])
  with 1 2 show ?thesis by simp
qed

lemma candidateIds_cong:
  "p_id p = p_id p' \<Longrightarrow> candidateIds players wishes p = candidateIds players wishes p'"
  by (simp add: candidateIds_def eligible_def Let_def cong: option.case_cong)

lemma map_of_fold_update_notin:
  "k \<notin> f ` set ps \<Longrightarrow> map_of (fold (\<lambda>p. AList.update (f p) (g p)) ps al) k = map_of al k"
  by (induction ps arbitrary: al) (auto simp: update_conv')

lemma map_of_fold_update_in:
  "k \<in> f ` set ps \<Longrightarrow>
   \<exists>p \<in> set ps. f p = k \<and> map_of (fold (\<lambda>p. AList.update (f p) (g p)) ps al) k = Some (g p)"
proof (induction ps arbitrary: al)
  case Nil
  then show ?case by simp
next
  case (Cons p ps)
  show ?case
  proof (cases "k \<in> f ` set ps")
    case True
    then show ?thesis using Cons.IH [of "AList.update (f p) (g p) al"] by auto
  next
    case False
    then have "f p = k" using Cons.prems by auto
    then show ?thesis using False by (auto simp: map_of_fold_update_notin update_conv')
  qed
qed

lemma shuffledCandidates_set:
  "set (shuffledCandidates players wishes aseed p) = set (candidateIds players wishes p)"
proof -
  have "mset (shuffledCandidates players wishes aseed p) = mset (candidateIds players wishes p)"
    unfolding shuffledCandidates_def using SeededRandom_range by (intro shuffle_mset) simp
  then show ?thesis by (rule mset_eq_setD)
qed

lemma matchAll_succeeds:
  assumes "distinct (map snd M)"
    and "image_mset fst (mset M) = mset done + mset rest"
    and "\<And>q w. (q, w) \<in> set M \<Longrightarrow> \<exists>ro. map_of c q = Some ro \<and> w \<in> set ro"
    and "distinct (map fst (wishAssignedTo st))"
    and "holders st \<subseteq># mset done"
  shows "\<exists>st'. matchAll c rest st = Inr (True, st')"
  using assms(2,4,5)
proof (induction rest arbitrary: "done" st)
  case Nil
  then show ?case by simp
next
  case (Cons pid rest)
  have ids: "fst ` set M = set done \<union> set (pid # rest)"
    using arg_cong [OF Cons.prems(1), of set_mset] by simp
  have cand: "\<exists>ro. map_of c q = Some ro" if "q \<in> set done \<union> set (pid # rest)" for q
  proof -
    from that ids have "q \<in> fst ` set M" by simp
    then obtain a where "a \<in> set M" "q = fst a" by blast
    then have "(q, snd a) \<in> set M" by simp
    then show ?thesis using assms(3) by blast
  qed
  obtain opts where opts: "map_of c pid = Some opts" using cand [of pid] by auto
  have hold: "r = [] \<or> (\<exists>ro. map_of c r = Some ro)" if "r \<in> snd ` set (wishAssignedTo st)" for r
  proof -
    have "r \<in># holders st" using that by (simp add: holders_def)
    then have "r \<in># mset done" using Cons.prems(3) by (rule mset_subset_eqD [rotated])
    then have "r \<in> set done" by simp
    then show ?thesis using cand [of r] by simp
  qed
  obtain res where res: "tryMatch_for c pid opts {} st = Inr res"
    using tryMatch_for_no_error [of st c pid opts "{}"] hold by blast
  obtain ok seen' st1 where r3: "res = (ok, seen', st1)" by (cases res)
  have run: "search c pid opts {} st ok seen' st1"
    using tryMatch_for_search res r3 by simp
  have ok
  proof (rule ccontr)
    assume nok: "\<not> ok"
    have closed: "set opts \<subseteq> seen'"
      "\<And>w. w \<in> seen' \<Longrightarrow> \<exists>r ro. map_of (wishAssignedTo st) w = Some r \<and> r \<noteq> []
          \<and> map_of c r = Some ro \<and> set ro \<subseteq> seen'"
      using search_fail_closed [OF run nok] by auto
    let ?F = "filter (\<lambda>(w, r). w \<in> seen') (wishAssignedTo st)"
    let ?X = "add_mset pid (image_mset snd (mset ?F))"
    have keys: "seen' \<subseteq> fst ` set ?F"
    proof
      fix w assume w: "w \<in> seen'"
      then obtain r where "map_of (wishAssignedTo st) w = Some r" using closed(2) by blast
      then have "(w, r) \<in> set (wishAssignedTo st)" by (rule map_of_SomeD)
      with w show "w \<in> fst ` set ?F" by force
    qed
    then have fin: "finite seen'" by (rule finite_subset) simp
    have "card seen' \<le> card (fst ` set ?F)" using keys by (intro card_mono) simp_all
    also have "\<dots> \<le> card (set ?F)" by (intro card_image_le) simp
    also have "\<dots> \<le> length ?F" by (rule card_length)
    finally have small: "card seen' \<le> length ?F" .
    have "mset ?F \<subseteq># mset (wishAssignedTo st)"
      unfolding mset_filter by (rule multiset_filter_subset)
    then have "image_mset snd (mset ?F) \<subseteq># holders st"
      unfolding holders_def by (rule image_mset_subseteq_mono)
    then have "image_mset snd (mset ?F) \<subseteq># mset done"
      using Cons.prems(3) by (rule subset_mset.order_trans)
    then have "?X \<subseteq># add_mset pid (mset done)"
      by (simp only: mset_subset_eq_add_mset_cancel)
    also have "\<dots> \<subseteq># mset done + mset (pid # rest)"
      by simp
    also have "\<dots> = image_mset fst (mset M)"
      using Cons.prems(1) by simp
    finally have sub: "?X \<subseteq># image_mset fst (mset M)" .
    have inS: "w \<in> seen'" if qw: "(q, w) \<in> set M" and qX: "q \<in># ?X" for q w
    proof -
      obtain ro where ro: "map_of c q = Some ro" "w \<in> set ro" using assms(3) qw by blast
      show ?thesis
      proof (cases "q = pid")
        case True
        then show ?thesis using ro opts closed(1) by auto
      next
        case False
        then have "q \<in># image_mset snd (mset ?F)" using qX by simp
        then have "q \<in> snd ` set ?F" by (simp only: set_image_mset set_mset_mset)
        then obtain a where "a \<in> set ?F" "q = snd a" by blast
        then have held: "(fst a, q) \<in> set (wishAssignedTo st)" "fst a \<in> seen'"
          by (auto simp: case_prod_beta)
        have "map_of (wishAssignedTo st) (fst a) = Some q"
          using Cons.prems(2) held(1) by (rule map_of_is_SomeI)
        then have "set ro \<subseteq> seen'" using closed(2) [OF held(2)] ro(1) by auto
        then show ?thesis using ro(2) by auto
      qed
    qed
    have "size ?X \<le> card seen'"
      using assms(1) sub inS fin by (rule hall_violation)
    then show False using small by (simp del: mset_filter)
  qed
  have d1: "distinct (map fst (wishAssignedTo st1))"
    using search_wa_distinct [OF run Cons.prems(2)] .
  have "holders st1 \<subseteq># add_mset pid (holders st)"
    using search_holders [OF run \<open>ok\<close>] .
  also have "\<dots> \<subseteq># mset (done @ [pid])" using Cons.prems(3) by simp
  finally have h1: "holders st1 \<subseteq># mset (done @ [pid])" .
  have "image_mset fst (mset M) = mset (done @ [pid]) + mset rest"
    using Cons.prems(1) by simp
  from Cons.IH [OF this d1 h1] obtain st' where "matchAll c rest st1 = Inr (True, st')" by blast
  then show ?case using opts res r3 \<open>ok\<close> by (simp add: tryMatch_def)
qed

lemma runAttempt_success:
  assumes "perfect_matching players wishes ms"
  shows "\<exists>pairs. runAttempt players wishes seed k = Inr (Some pairs)"
proof -
  define aseed where "aseed = attemptSeed seed k"
  define c where "c = fold (\<lambda>p. AList.update (p_id p) (shuffledCandidates players wishes aseed p)) players []"
  define order where "order = fst (shuffle (SeededRandom (aseed @ js ''#order'')) (map p_id players))"
  define M where "M = zip (map p_id players) ms"
  have dist: "distinct ms" and all2: "list_all2 (\<lambda>p wid. wid \<in> set (candidateIds players wishes p)) players ms"
    using assms by (simp_all add: perfect_matching_def)
  have len: "length ms = length players" using all2 by (simp add: list_all2_lengthD)
  have nth: "ms ! i \<in> set (candidateIds players wishes (players ! i))" if "i < length players" for i
    using all2 that by (rule list_all2_nthD)
  have nonempty: "candidateIds players wishes p \<noteq> []" if "p \<in> set players" for p
  proof -
    from that obtain i where "i < length players" "players ! i = p" by (auto simp: in_set_conv_nth)
    then show ?thesis using nth [of i] by auto
  qed
  then have "find (\<lambda>p. candidateIds players wishes p = []) players = None"
    by (simp add: find_None_iff)
  then have build: "buildCandidates (groupOf players) (wishById wishes) (allWishIds wishes) aseed players [] = Inr c"
    by (simp add: buildCandidates_find c_def)
  have "mset order = mset (map p_id players)"
    unfolding order_def using SeededRandom_range by (intro shuffle_mset) simp
  moreover have "map fst M = map p_id players" "map snd M = ms"
    using len by (simp_all add: M_def)
  ultimately have M1: "distinct (map snd M)" and M2: "image_mset fst (mset M) = mset [] + mset order"
    using dist by (simp_all flip: mset_map)
  have M3: "\<exists>ro. map_of c q = Some ro \<and> w \<in> set ro" if qw: "(q, w) \<in> set M" for q w
  proof -
    from qw obtain i where i: "i < length players" "q = p_id (players ! i)" "w = ms ! i"
      unfolding M_def by (auto simp: in_set_zip)
    then have "q \<in> p_id ` set players" by simp
    then obtain p' where p': "p' \<in> set players" "p_id p' = q"
      "map_of c q = Some (shuffledCandidates players wishes aseed p')"
      unfolding c_def using map_of_fold_update_in [of q p_id players] by blast
    have "candidateIds players wishes p' = candidateIds players wishes (players ! i)"
      using p'(2) i(2) by (intro candidateIds_cong) simp
    then have "w \<in> set (shuffledCandidates players wishes aseed p')"
      using nth [OF i(1)] i(3) by (simp add: shuffledCandidates_set)
    with p'(3) show ?thesis by simp
  qed
  have "\<exists>st'. matchAll c order \<lparr>wishAssignedTo = [], pickerAssignedWish = []\<rparr> = Inr (True, st')"
    using M1 M2 M3 by (rule matchAll_succeeds) (simp_all add: holders_def)
  then obtain st' where "matchAll c order \<lparr>wishAssignedTo = [], pickerAssignedWish = []\<rparr> = Inr (True, st')"
    by blast
  then show ?thesis
    using build by (simp add: runAttempt_def Let_def aseed_def order_def)
qed

section \<open>Every assignment of the search is valid for non-empty ids\<close>

lemma consistent_assign:
  assumes "consistent c st" and "p \<noteq> []" and "map_of c p = Some full" and "wid \<in> set full"
    and "\<And>r. r \<noteq> p \<Longrightarrow> map_of (pickerAssignedWish st) r \<noteq> Some wid"
  shows "consistent c (assign wid p st)"
  using assms unfolding consistent_def by (auto simp: update_conv')

lemma search_consistent:
  "search c p opts seen st ok seen' st' \<Longrightarrow> ok \<Longrightarrow> consistent c st \<Longrightarrow> p \<noteq> [] \<Longrightarrow>
   map_of c p = Some full \<Longrightarrow> set opts \<subseteq> set full \<Longrightarrow>
   consistent c st'
   \<and> (\<exists>w. map_of (pickerAssignedWish st') p = Some w \<and> w \<notin> seen)
   \<and> (\<forall>r w. map_of (pickerAssignedWish st') r = Some w \<longrightarrow>
          map_of (pickerAssignedWish st) r = Some w \<or> w \<notin> seen)"
proof (induction arbitrary: full rule: search.induct)
  case (Nil p seen st)
  then show ?case by simp
next
  case (Skip wid seen p opts st ok seen' st')
  then show ?case by simp
next
  case (Free wid seen st p opts)
  have free: "map_of (pickerAssignedWish st) r \<noteq> Some wid" for r
    using Free(2) Free.prems(2) unfolding consistent_def by auto
  have "consistent c (assign wid p st)"
    using Free.prems(2,3,4) _ free
    by (rule consistent_assign) (use Free.prems(5) in auto)
  then show ?case using Free(1) by (auto simp: update_conv')
next
  case (Steal wid seen st cur curOpts seen1 st1 p opts)
  have ih: "consistent c st1"
    "\<exists>w. map_of (pickerAssignedWish st1) cur = Some w \<and> w \<notin> insert wid seen"
    "\<forall>r w. map_of (pickerAssignedWish st1) r = Some w \<longrightarrow>
          map_of (pickerAssignedWish st) r = Some w \<or> w \<notin> insert wid seen"
    using Steal.IH [OF _ Steal.prems(2) Steal(3) Steal(4)] by simp_all
  have free: "map_of (pickerAssignedWish st1) r \<noteq> Some wid" for r
  proof
    assume a: "map_of (pickerAssignedWish st1) r = Some wid"
    then have "map_of (pickerAssignedWish st) r = Some wid" using ih(3) by auto
    then have "map_of (wishAssignedTo st) wid = Some r"
      using Steal.prems(2) unfolding consistent_def by blast
    then have "r = cur" using Steal(2) by simp
    with a ih(2) show False by auto
  qed
  have "consistent c (assign wid p st1)"
    using ih(1) Steal.prems(3,4) _ free
    by (rule consistent_assign) (use Steal.prems(5) in auto)
  then show ?case using Steal(1) ih(3) by (auto simp: update_conv')
next
  case (Retry wid seen st cur curOpts seen1 st1 p opts ok seen' st')
  have st1: "st1 = st" using search_fail_state [OF Retry(5)] by simp
  have sub: "seen \<subseteq> seen1" using search_seen [OF Retry(5)] by auto
  have ih: "consistent c st'"
    "\<exists>w. map_of (pickerAssignedWish st') p = Some w \<and> w \<notin> seen1"
    "\<forall>r w. map_of (pickerAssignedWish st') r = Some w \<longrightarrow>
          map_of (pickerAssignedWish st) r = Some w \<or> w \<notin> seen1"
    using Retry.IH(2) [OF Retry.prems(1) _ Retry.prems(3,4)] Retry.prems(2,5) st1 by simp_all
  show ?case using ih sub by blast
qed

lemma set_update_subset: "set (AList.update k v al) \<subseteq> insert (k, v) (set al)"
  by (induction al) auto

lemma keyed_assign: "keyed st \<Longrightarrow> keyed (assign wid p st)"
proof -
  assume k: "keyed st"
  have "snd ` set (AList.update wid p (wishAssignedTo st)) \<subseteq> insert p (snd ` set (wishAssignedTo st))"
    using set_update_subset [of wid p "wishAssignedTo st"] by force
  then show ?thesis using k by (auto simp: keyed_def dom_update)
qed

lemma search_keyed:
  "search c p opts seen st ok seen' st' \<Longrightarrow> keyed st \<Longrightarrow>
   keyed st' \<and> fst ` set (pickerAssignedWish st') = (if ok then insert p (fst ` set (pickerAssignedWish st))
                                                       else fst ` set (pickerAssignedWish st))"
proof (induction rule: search.induct)
  case (Nil p seen st)
  then show ?case by simp
next
  case (Skip wid seen p opts st ok seen' st')
  then show ?case by simp
next
  case (Free wid seen st p opts)
  then show ?case by (simp add: keyed_assign dom_update)
next
  case (Steal wid seen st cur curOpts seen1 st1 p opts)
  have "cur \<in> snd ` set (wishAssignedTo st)" using map_of_SomeD [OF Steal(2)] by force
  then have "cur \<in> fst ` set (pickerAssignedWish st)" using Steal.prems by (auto simp: keyed_def)
  then show ?case using Steal.IH [OF Steal.prems] by (auto simp: keyed_assign dom_update)
next
  case (Retry wid seen st cur curOpts seen1 st1 p opts ok seen' st')
  have st1: "st1 = st" using search_fail_state [OF Retry(5)] by simp
  show ?case using Retry.IH(2) Retry.prems st1 by simp
qed

lemma search_pa_distinct:
  "search c p opts seen st ok seen' st' \<Longrightarrow> distinct (map fst (pickerAssignedWish st)) \<Longrightarrow>
   distinct (map fst (pickerAssignedWish st'))"
  by (induction rule: search.induct) (auto simp: distinct_update)

lemma matchAll_valid:
  assumes "matchAll c order st = Inr (True, st')"
    and "consistent c st" and "keyed st" and "distinct (map fst (pickerAssignedWish st))"
    and "[] \<notin> set order"
  shows "consistent c st' \<and> distinct (map fst (pickerAssignedWish st'))
       \<and> fst ` set (pickerAssignedWish st') = fst ` set (pickerAssignedWish st) \<union> set order"
  using assms
proof (induction order arbitrary: st)
  case Nil
  then show ?case by simp
next
  case (Cons pid rest)
  obtain res where res: "tryMatch c pid {} st = Inr res"
    using Cons.prems(1) by (cases "tryMatch c pid {} st") simp_all
  obtain ok seen1 st1 where r3: "res = (ok, seen1, st1)" by (cases res)
  have ok: ok and rest: "matchAll c rest st1 = Inr (True, st')"
    using Cons.prems(1) res r3 by (simp_all split: if_splits)
  obtain opts where opts: "map_of c pid = Some opts"
    and run: "tryMatch_for c pid opts {} st = Inr (True, seen1, st1)"
    using res r3 ok by (auto simp: tryMatch_def split: option.splits)
  have s: "search c pid opts {} st True seen1 st1" using run by (rule tryMatch_for_search)
  have pid: "pid \<noteq> []" using Cons.prems(5) by auto
  have c1: "consistent c st1"
    using search_consistent [OF s _ Cons.prems(2) pid opts] by simp
  have k1: "keyed st1"
    and keys1: "fst ` set (pickerAssignedWish st1) = insert pid (fst ` set (pickerAssignedWish st))"
    using search_keyed [OF s Cons.prems(3)] by simp_all
  have d1: "distinct (map fst (pickerAssignedWish st1))"
    using search_pa_distinct [OF s Cons.prems(4)] .
  have "[] \<notin> set rest" using Cons.prems(5) by simp
  from Cons.IH [OF rest c1 k1 d1 this] keys1 show ?case by auto
qed

lemma set_new_Map_aux: "set (fold (\<lambda>(k, v). AList.update k v) es al) \<subseteq> set es \<union> set al"
proof (induction es arbitrary: al)
  case Nil
  then show ?case by simp
next
  case (Cons e es)
  obtain k v where e: "e = (k, v)" by (cases e)
  have "set (fold (\<lambda>(k, v). AList.update k v) es (AList.update k v al))
      \<subseteq> set es \<union> set (AList.update k v al)" by (rule Cons.IH)
  also have "\<dots> \<subseteq> set es \<union> insert (k, v) (set al)"
    using set_update_subset [of k v al] by auto
  finally show ?case using e by auto
qed

lemma wishById_SomeD:
  "map_of (wishById wishes) wid = Some w \<Longrightarrow> w \<in> set wishes \<and> w_id w = wid"
proof -
  assume "map_of (wishById wishes) wid = Some w"
  then have "(wid, w) \<in> set (wishById wishes)" by (rule map_of_SomeD)
  then have "(wid, w) \<in> set (map (\<lambda>w. (w_id w, w)) wishes)"
    using set_new_Map_aux [of "map (\<lambda>w. (w_id w, w)) wishes" "[]"]
    by (auto simp: wishById_def new_Map_def)
  then show ?thesis by auto
qed

lemma candidateIds_eligible:
  assumes "wid \<in> set (candidateIds players wishes p)"
  shows "\<exists>w \<in> set wishes. w_id w = wid \<and> map_of (wishById wishes) wid = Some w
           \<and> w_ownerId w \<noteq> p_id p
           \<and> groupLabel players (w_ownerId w) \<noteq> groupLabel players (p_id p)"
proof -
  have e: "eligible (groupOf players) (wishById wishes) p wid = Inr True"
    using assms by (simp add: candidateIds_def)
  then obtain w where w: "map_of (wishById wishes) wid = Some w"
    by (cases "map_of (wishById wishes) wid") (simp_all add: eligible_def)
  with e have "w_ownerId w \<noteq> p_id p"
    "groupLabel players (w_ownerId w) \<noteq> groupLabel players (p_id p)"
    by (simp_all add: eligible_def Let_def groupLabel_def)
  with w wishById_SomeD [OF w] show ?thesis by auto
qed

lemma distinct_values:
  assumes "distinct (map fst al)"
    and "\<And>r1 r2 w. map_of al r1 = Some w \<Longrightarrow> map_of al r2 = Some w \<Longrightarrow> r1 = r2"
  shows "distinct (map snd al)"
proof -
  have "distinct al" using assms(1) by (simp add: distinct_map)
  moreover have "inj_on snd (set al)"
  proof (rule inj_onI)
    fix a b assume ab: "a \<in> set al" "b \<in> set al" "snd a = snd b"
    have "map_of al (fst a) = Some (snd a)" "map_of al (fst b) = Some (snd b)"
      using assms(1) ab(1,2) by (simp_all add: map_of_is_SomeI)
    then have "fst a = fst b" using assms(2) ab(3) by metis
    with ab(3) show "a = b" by (simp add: prod_eq_iff)
  qed
  ultimately show ?thesis by (simp add: distinct_map)
qed

lemma runAttempt_matching:
  assumes "[] \<notin> p_id ` set players"
    and "runAttempt players wishes seed k = Inr (Some pairs)"
  shows "distinct (map pickerId pairs) \<and> set (map pickerId pairs) = p_id ` set players
       \<and> distinct (map wishId pairs)
       \<and> (\<forall>pair \<in> set pairs. \<forall>p \<in> set players. p_id p = pickerId pair \<longrightarrow>
              wishId pair \<in> set (candidateIds players wishes p))"
proof -
  define aseed where "aseed = attemptSeed seed k"
  define c where "c = fold (\<lambda>p. AList.update (p_id p) (shuffledCandidates players wishes aseed p)) players []"
  define order where "order = fst (shuffle (SeededRandom (aseed @ js ''#order'')) (map p_id players))"
  let ?init = "\<lparr>wishAssignedTo = [], pickerAssignedWish = []\<rparr>"
  have build: "buildCandidates (groupOf players) (wishById wishes) (allWishIds wishes) aseed players [] = Inr c"
    using assms(2)
    by (auto simp: runAttempt_def buildCandidates_find c_def aseed_def split: option.splits sum.splits)
  then obtain st where run: "matchAll c order ?init = Inr (True, st)"
    and pairs: "pairs = map (\<lambda>(picker, wid). \<lparr>pickerId = picker, wishId = wid\<rparr>) (pickerAssignedWish st)"
    using assms(2)
    by (auto simp: runAttempt_def Let_def aseed_def order_def split: sum.splits if_splits)
  have ord: "mset order = mset (map p_id players)"
    unfolding order_def using SeededRandom_range by (intro shuffle_mset) simp
  then have setord: "set order = p_id ` set players" by (metis mset_eq_setD set_map)
  have v: "consistent c st" "distinct (map fst (pickerAssignedWish st))"
    "fst ` set (pickerAssignedWish st) = set order"
    using matchAll_valid [OF run] assms(1) setord by (simp_all add: consistent_def keyed_def)
  have fstsnd: "map pickerId pairs = map fst (pickerAssignedWish st)"
    "map wishId pairs = map snd (pickerAssignedWish st)"
    by (simp_all add: pairs case_prod_beta)
  have one: "distinct (map pickerId pairs)" using v(2) fstsnd(1) by simp
  have one': "set (map pickerId pairs) = p_id ` set players"
    using v(3) setord fstsnd(1) by simp
  have two: "distinct (map wishId pairs)"
    unfolding fstsnd(2) using v(2)
  proof (rule distinct_values)
    fix r1 r2 w
    assume "map_of (pickerAssignedWish st) r1 = Some w" "map_of (pickerAssignedWish st) r2 = Some w"
    then have "map_of (wishAssignedTo st) w = Some r1" "map_of (wishAssignedTo st) w = Some r2"
      using v(1) unfolding consistent_def by blast+
    then show "r1 = r2" by simp
  qed
  have three: "wishId pair \<in> set (candidateIds players wishes p)"
    if pr: "pair \<in> set pairs" and p: "p \<in> set players" "p_id p = pickerId pair" for pair p
  proof -
    from pr obtain r wid where rw: "(r, wid) \<in> set (pickerAssignedWish st)"
      "pair = \<lparr>pickerId = r, wishId = wid\<rparr>" unfolding pairs by auto
    have "map_of (pickerAssignedWish st) r = Some wid"
      using v(2) rw(1) by (rule map_of_is_SomeI)
    then obtain ro where ro: "map_of c r = Some ro" "wid \<in> set ro"
      using v(1) unfolding consistent_def by blast
    have "r \<in> p_id ` set players" using p rw(2) by auto
    then obtain p' where p': "p' \<in> set players" "p_id p' = r"
      "map_of c r = Some (shuffledCandidates players wishes aseed p')"
      unfolding c_def using map_of_fold_update_in [of r p_id players] by blast
    then have "wid \<in> set (candidateIds players wishes p')"
      using ro by (simp add: shuffledCandidates_set)
    moreover have "candidateIds players wishes p' = candidateIds players wishes p"
      using p'(2) p(2) rw(2) by (intro candidateIds_cong) simp
    ultimately show ?thesis using rw(2) by simp
  qed
  from one one' two three show ?thesis by blast
qed

lemma pairs_perfect_matching:
  fixes pairs :: "MatchPair list"
  assumes ids: "distinct (map p_id players)"
    and keys: "distinct (map pickerId pairs)" "set (map pickerId pairs) = p_id ` set players"
    and vals: "distinct (map wishId pairs)"
    and elig: "\<forall>pair \<in> set pairs. \<forall>p \<in> set players. p_id p = pickerId pair \<longrightarrow>
              wishId pair \<in> set (candidateIds players wishes p)"
  shows "\<exists>ms. perfect_matching players wishes ms
           \<and> mset (map (\<lambda>pr. (pickerId pr, wishId pr)) pairs) = mset (zip (map p_id players) ms)"
proof -
  define al where "al = map (\<lambda>pr. (pickerId pr, wishId pr)) pairs"
  define ms where "ms = map (\<lambda>p. the (map_of al (p_id p))) players"
  have k: "map fst al = map pickerId pairs" and v: "map snd al = map wishId pairs"
    by (simp_all add: al_def comp_def)
  have dk: "distinct (map fst al)" using keys(1) k by simp
  then have dal: "distinct al" by (simp add: distinct_map)
  have zs: "zip (map p_id players) ms = map (\<lambda>p. (p_id p, the (map_of al (p_id p)))) players"
    by (simp add: ms_def zip_map_map zip_same_conv_map)
  have dzs: "distinct (zip (map p_id players) ms)"
  proof -
    have "map fst (zip (map p_id players) ms) = map p_id players" by (simp add: zs comp_def)
    then have "distinct (map fst (zip (map p_id players) ms))" using ids by simp
    then show ?thesis by (simp add: distinct_map)
  qed
  have sets: "set al = set (zip (map p_id players) ms)"
  proof (rule set_eqI)
    fix kv :: "jsstring \<times> jsstring"
    obtain a b where kv: "kv = (a, b)" by (cases kv)
    have "(a, b) \<in> set al \<longleftrightarrow> a \<in> p_id ` set players \<and> map_of al a = Some b"
    proof
      assume m: "(a, b) \<in> set al"
      then have "a \<in> fst ` set al" by force
      then have "a \<in> p_id ` set players" using keys(2) k by (metis set_map)
      moreover have "map_of al a = Some b" using dk m by (rule map_of_is_SomeI)
      ultimately show "a \<in> p_id ` set players \<and> map_of al a = Some b" by simp
    next
      assume "a \<in> p_id ` set players \<and> map_of al a = Some b"
      then show "(a, b) \<in> set al" by (simp add: map_of_SomeD)
    qed
    moreover have "(a, b) \<in> set (zip (map p_id players) ms) \<longleftrightarrow>
        a \<in> p_id ` set players \<and> map_of al a = Some b"
    proof
      assume "(a, b) \<in> set (zip (map p_id players) ms)"
      then obtain p where p: "p \<in> set players" "a = p_id p" "b = the (map_of al (p_id p))"
        unfolding zs by auto
      then have "a \<in> fst ` set al" using keys(2) k by (metis image_eqI set_map)
      then obtain b' where "map_of al a = Some b'"
        by (metis domIff dom_map_of_conv_image_fst not_Some_eq)
      then show "a \<in> p_id ` set players \<and> map_of al a = Some b" using p by simp
    next
      assume "a \<in> p_id ` set players \<and> map_of al a = Some b"
      then show "(a, b) \<in> set (zip (map p_id players) ms)" unfolding zs by force
    qed
    ultimately show "kv \<in> set al \<longleftrightarrow> kv \<in> set (zip (map p_id players) ms)"
      using kv by simp
  qed
  have meq: "mset al = mset (zip (map p_id players) ms)"
    using sets dal dzs by (simp only: set_eq_iff_mset_eq_distinct)
  have len: "length ms = length players" by (simp add: ms_def)
  have "mset (map snd al) = mset (map snd (zip (map p_id players) ms))"
    using meq by (metis mset_map)
  also have "map snd (zip (map p_id players) ms) = ms" using len by simp
  finally have "mset (map wishId pairs) = mset ms" using v by simp
  then have dms: "distinct ms" using vals by (metis mset_eq_imp_distinct_iff)
  have "wid \<in> set (candidateIds players wishes p)"
    if "p \<in> set players" "wid = the (map_of al (p_id p))" for p wid
  proof -
    have "(p_id p, wid) \<in> set (zip (map p_id players) ms)" using that unfolding zs by force
    then have "(p_id p, wid) \<in> set al" using sets by simp
    then obtain pr where "pr \<in> set pairs" "pickerId pr = p_id p" "wishId pr = wid"
      unfolding al_def by auto
    then show ?thesis using elig that(1) by force
  qed
  then have "list_all2 (\<lambda>p wid. wid \<in> set (candidateIds players wishes p)) players ms"
    unfolding ms_def by (simp add: list_all2_map2 list_all2_same)
  with dms have "perfect_matching players wishes ms" by (simp add: perfect_matching_def)
  with meq show ?thesis unfolding al_def by blast
qed

lemma runAttempt_valid:
  assumes "distinct (map p_id players)" and "[] \<notin> p_id ` set players"
    and "runAttempt players wishes seed k = Inr (Some pairs)"
  shows "mset (map pickerId pairs) = mset (map p_id players)
       \<and> distinct (map wishId pairs)
       \<and> (\<forall>pair \<in> set pairs. \<exists>w \<in> set wishes. w_id w = wishId pair
              \<and> map_of (wishById wishes) (wishId pair) = Some w
              \<and> w_ownerId w \<noteq> pickerId pair
              \<and> groupLabel players (w_ownerId w) \<noteq> groupLabel players (pickerId pair))"
proof -
  note m = runAttempt_matching [OF assms(2,3)]
  have seteq: "set (map pickerId pairs) = set (map p_id players)" using m by simp
  have dp: "distinct (map pickerId pairs)" using m by blast
  have one: "mset (map pickerId pairs) = mset (map p_id players)"
    using set_eq_iff_mset_eq_distinct [OF dp assms(1)] seteq by blast
  have three: "\<exists>w \<in> set wishes. w_id w = wishId pair
              \<and> map_of (wishById wishes) (wishId pair) = Some w
              \<and> w_ownerId w \<noteq> pickerId pair
              \<and> groupLabel players (w_ownerId w) \<noteq> groupLabel players (pickerId pair)"
    if pr: "pair \<in> set pairs" for pair
  proof -
    have "pickerId pair \<in> set (map pickerId pairs)" using pr by simp
    then have "pickerId pair \<in> p_id ` set players" using m by simp
    then obtain p where p: "p \<in> set players" "p_id p = pickerId pair" by auto
    then have "wishId pair \<in> set (candidateIds players wishes p)" using m pr by blast
    from candidateIds_eligible [OF this] show ?thesis using p(2) by simp
  qed
  from one m three show ?thesis by blast
qed

section \<open>Eligibility in terms of owners and group labels\<close>

text \<open>
  With distinct wish ids, a wish is among a participant's candidates exactly when the
  participant does not own it and the group labels of the owner and the participant differ;
  with distinct participant ids, the label of a participant is its group, or \<open>'A'\<close>.
\<close>

lemma map_of_fold_update_pairs_notin:
  "k \<notin> fst ` set es \<Longrightarrow> map_of (fold (\<lambda>(k, v). AList.update k v) es al) k = map_of al k"
  by (induction es arbitrary: al) (auto simp: update_conv')

lemma map_of_fold_update_pairs_in:
  "distinct (map fst es) \<Longrightarrow> (k, v) \<in> set es \<Longrightarrow>
   map_of (fold (\<lambda>(k, v). AList.update k v) es al) k = Some v"
proof (induction es arbitrary: al)
  case Nil
  then show ?case by simp
next
  case (Cons e es)
  show ?case
  proof (cases "e = (k, v)")
    case True
    then have "k \<notin> fst ` set es" using Cons.prems(1) by auto
    then show ?thesis using True by (simp add: map_of_fold_update_pairs_notin update_conv')
  next
    case False
    then have "(k, v) \<in> set es" using Cons.prems(2) by simp
    then show ?thesis using Cons.IH [of "AList.update (fst e) (snd e) al"] Cons.prems(1)
      by (simp add: case_prod_beta)
  qed
qed

lemma map_of_new_Map_distinct:
  "distinct (map fst es) \<Longrightarrow> (k, v) \<in> set es \<Longrightarrow> map_of (new_Map es) k = Some v"
  unfolding new_Map_def by (rule map_of_fold_update_pairs_in)

lemma map_of_new_Map_notin: "k \<notin> fst ` set es \<Longrightarrow> map_of (new_Map es) k = None"
  by (simp add: new_Map_def map_of_fold_update_pairs_notin)

lemma groupLabel_player:
  "distinct (map p_id players) \<Longrightarrow> p \<in> set players \<Longrightarrow> groupLabel players (p_id p) = orA (p_group p)"
proof -
  assume d: "distinct (map p_id players)" and p: "p \<in> set players"
  let ?es = "map (\<lambda>p. (p_id p, orA (p_group p))) players"
  have "distinct (map fst ?es)" using d by (simp add: comp_def)
  moreover have "(p_id p, orA (p_group p)) \<in> set ?es" using p by auto
  ultimately have "map_of (groupOf players) (p_id p) = Some (orA (p_group p))"
    unfolding groupOf_def by (rule map_of_new_Map_distinct)
  then show ?thesis by (simp add: groupLabel_def orA_def split: option.splits)
qed

lemma groupLabel_stranger:
  "pid \<notin> p_id ` set players \<Longrightarrow> groupLabel players pid = js ''A''"
proof -
  assume "pid \<notin> p_id ` set players"
  then have "pid \<notin> fst ` set (map (\<lambda>p. (p_id p, orA (p_group p))) players)" by force
  then have "map_of (groupOf players) pid = None"
    unfolding groupOf_def by (rule map_of_new_Map_notin)
  then show ?thesis by (simp add: groupLabel_def orA_def)
qed

lemma candidateIds_iff:
  assumes "distinct (map w_id wishes)" and "w \<in> set wishes"
  shows "w_id w \<in> set (candidateIds players wishes p) \<longleftrightarrow>
           w_ownerId w \<noteq> p_id p \<and> groupLabel players (w_ownerId w) \<noteq> groupLabel players (p_id p)"
proof -
  let ?es = "map (\<lambda>w. (w_id w, w)) wishes"
  have "distinct (map fst ?es)" using assms(1) by (simp add: comp_def)
  moreover have "(w_id w, w) \<in> set ?es" using assms(2) by auto
  ultimately have "map_of (wishById wishes) (w_id w) = Some w"
    unfolding wishById_def by (rule map_of_new_Map_distinct)
  moreover have "w_id w \<in> set (allWishIds wishes)" using assms(2) by (simp add: allWishIds_def)
  ultimately show ?thesis
    by (simp add: candidateIds_def eligible_def Let_def groupLabel_def)
qed

section \<open>The attempt of the source and the attempt of the specification\<close>




section \<open>Claims about the attempt loop\<close>

text \<open>
  C3. When some participant's candidate list is empty, the first such participant in list
  order is found by the candidate loop of attempt 0, which throws the error that carries this
  participant's name; \<open>matchWishes\<close> fails with it, not with the exhaustion failure, and
  no attempt is completed.
\<close>

theorem structural_infeasibility_first_attempt:
  assumes "p \<in> set players" and "candidateIds players wishes p = []"
  shows "\<exists>q. find (\<lambda>p. candidateIds players wishes p = []) players = Some q
           \<and> q \<in> set players \<and> candidateIds players wishes q = []
           \<and> runAttempt players wishes seed 0 = Inl (NoCandidates (p_name q))
           \<and> matchWishes players wishes seed = Inl (NoCandidates (p_name q))"
proof -
  obtain q where q: "find (\<lambda>p. candidateIds players wishes p = []) players = Some q"
    using assms by (cases "find (\<lambda>p. candidateIds players wishes p = []) players")
      (auto simp: find_None_iff)
  then have q': "q \<in> set players" "candidateIds players wishes q = []"
    by (auto simp: find_Some_iff)
  have r: "runAttempt players wishes seed k = Inl (NoCandidates (p_name q))" for k
    by (simp add: runAttempt_def buildCandidates_find q)
  have "matchWishes players wishes seed = Inl (NoCandidates (p_name q))"
    by (simp add: matchWishes_def matchLoop.simps [of _ _ _ 0] r)
  with q q' r show ?thesis by blast
qed

theorem structural_infeasibility_first_attempt_witness:
  "alice \<in> set [alice, bob_in_A]
   \<and> candidateIds [alice, bob_in_A] selfTestWishes alice = []
   \<and> matchWishes [alice, bob_in_A] selfTestWishes (js ''seed-1'') = Inl (NoCandidates (js ''Alice''))"
proof -
  have h1: "alice \<in> set [alice, bob_in_A]" by simp
  have h2: "candidateIds [alice, bob_in_A] selfTestWishes alice = []" by code_simp
  have f: "find (\<lambda>p. candidateIds [alice, bob_in_A] selfTestWishes p = []) [alice, bob_in_A] = Some alice"
    by (simp add: h2)
  from structural_infeasibility_first_attempt [OF h1 h2, of "js ''seed-1''"] f
  have "matchWishes [alice, bob_in_A] selfTestWishes (js ''seed-1'') = Inl (NoCandidates (p_name alice))"
    by auto
  then show ?thesis using h1 h2 by (simp add: alice_def)
qed


text \<open>
  C10. With no participants the first attempt has nothing to assign and returns the empty
  pair list, for every wish list and every seed.
\<close>

theorem matchWishes_no_players:
  "runAttempt [] wishes seed 0 = Inr (Some []) \<and> matchWishes [] wishes seed = Inr []"
proof -
  have r: "runAttempt [] wishes seed 0 = Inr (Some [])"
    by (simp add: runAttempt_def shuffle_def)
  show ?thesis
    by (simp add: r matchWishes_def matchLoop.simps [of _ _ _ 0])
qed

text \<open>
  C9. The search terminates: \<open>tryMatch_for\<close> is defined by well-founded recursion on the
  number of unseen wishes and the options left. The nesting of calls below a call is bounded
  by the number of wishes that are not yet in \<open>seen\<close>: with that bound the depth-limited
  search returns the result of the search. A top-level call starts with the empty set, so its
  bound is the number of wish ids in the candidate lists.
\<close>

theorem tryMatch_depth_bounded_by_unseen_wishes:
  "unseen_wishes candidates opts seen \<le> n \<Longrightarrow>
   tryMatch_depth n candidates picker opts seen st
     = Some (tryMatch_for candidates picker opts seen st)"
proof (induction candidates picker opts seen st arbitrary: n rule: tryMatch_for.induct)
  case (1 candidates picker seen st)
  show ?case by (simp add: tryMatch_for.simps)
next
  case (2 candidates picker wid opts seen st)
  have rest: "unseen_wishes candidates opts seen \<le> n"
    using unseen_wishes_rest [of candidates opts seen wid] "2.prems" by simp
  show ?case
  proof (cases "wid \<in> seen")
    case True
    then show ?thesis using "2.IH"(1) [OF True rest] by (simp add: tryMatch_for.simps)
  next
    case False
    note unseen = this
    show ?thesis
    proof (cases "map_of (wishAssignedTo st) wid")
      case None
      with unseen show ?thesis by (simp add: tryMatch_for.simps)
    next
      case (Some cur)
      note holder = this
      show ?thesis
      proof (cases "cur = []")
        case True
        with unseen holder show ?thesis by (simp add: tryMatch_for.simps)
      next
        case False
        note cur = this
        show ?thesis
        proof (cases "map_of candidates cur")
          case None
          with unseen holder cur show ?thesis by (simp add: tryMatch_for.simps)
        next
          case (Some curOpts)
          note co = this
          have lt: "unseen_wishes candidates curOpts (insert wid seen) < n"
            using unseen_wishes_nested [OF unseen co, of opts] "2.prems" by simp
          then obtain m where n: "n = Suc m" by (cases n) simp_all
          have le: "unseen_wishes candidates curOpts (insert wid seen) \<le> m" using lt n by simp
          have nested: "tryMatch_depth m candidates cur curOpts (insert wid seen) st
              = Some (tryMatch_for candidates cur curOpts (insert wid seen) st)"
            using "2.IH"(2) [OF unseen holder cur co le] .
          show ?thesis
          proof (cases "tryMatch_for candidates cur curOpts (insert wid seen) st")
            case (Inl e)
            with unseen holder cur co n nested show ?thesis by (simp add: tryMatch_for.simps)
          next
            case (Inr res)
            obtain ok1 seen1 st1 where res: "res = (ok1, seen1, st1)" by (cases res)
            show ?thesis
            proof (cases ok1)
              case True
              with unseen holder cur co n nested Inr res show ?thesis
                by (simp add: tryMatch_for.simps)
            next
              case False
              have "insert wid seen \<subseteq> seen1"
                using tryMatch_for_seen Inr res by blast
              then have "unseen_wishes candidates opts seen1 \<le> n"
                using unseen_wishes_continue [of wid seen seen1 candidates opts] "2.prems" by simp
              then have "tryMatch_depth n candidates picker opts seen1 st1
                  = Some (tryMatch_for candidates picker opts seen1 st1)"
                using "2.IH"(3) [OF unseen holder cur co Inr [unfolded res] _ _ False] by simp
              with unseen holder cur co n nested Inr res False show ?thesis
                by (simp add: tryMatch_for.simps)
            qed
          qed
        qed
      qed
    qed
  qed
qed

theorem tryMatch_depth_bounded_by_unseen_wishes_witness:
  "unseen_wishes heldCandidates [js ''wB1''] {} \<le> 1
   \<and> tryMatch_depth 1 heldCandidates (js ''C'') [js ''wB1''] {} heldState
       = Some (Inr (False, {js ''wB1''}, heldState))"
proof -
  have h: "unseen_wishes heldCandidates [js ''wB1''] {} \<le> 1"
    by (simp add: unseen_wishes_def heldCandidates_def js_def)
  have "tryMatch_for heldCandidates (js ''C'') [js ''wB1''] {} heldState
          = Inr (False, {js ''wB1''}, heldState)"
    by (simp add: tryMatch_for.simps heldCandidates_def heldState_def js_def)
  with tryMatch_depth_bounded_by_unseen_wishes [OF h, of "js ''C''" heldState] h
  show ?thesis by simp
qed

section \<open>Claims about the matching\<close>

text \<open>
  C2, amended. If the eligibility graph has a perfect matching, the search of attempt 0
  assigns every participant and \<open>matchWishes\<close> returns its pairs, so the exhaustion failure
  is returned only when there is no perfect matching. If moreover no participant id is the
  empty string, the returned pairs are a matching: every participant id is the picker of one
  pair, no wish id occurs twice, and every pair's wish is among the candidates of its picker;
  with unique participant ids the pairs are, up to their order, the participants paired with
  a perfect matching.
\<close>

theorem perfect_matching_found:
  assumes "perfect_matching players wishes ms"
  shows "\<exists>pairs. runAttempt players wishes seed 0 = Inr (Some pairs)
           \<and> matchWishes players wishes seed = Inr pairs
           \<and> ([] \<notin> p_id ` set players \<longrightarrow>
                 distinct (map pickerId pairs) \<and> set (map pickerId pairs) = p_id ` set players
                 \<and> distinct (map wishId pairs)
                 \<and> (\<forall>pair \<in> set pairs. \<forall>p \<in> set players. p_id p = pickerId pair \<longrightarrow>
                       wishId pair \<in> set (candidateIds players wishes p))
                 \<and> (distinct (map p_id players) \<longrightarrow>
                       (\<exists>ms'. perfect_matching players wishes ms'
                          \<and> mset (map (\<lambda>pr. (pickerId pr, wishId pr)) pairs)
                              = mset (zip (map p_id players) ms'))))"
proof -
  obtain pairs where run: "runAttempt players wishes seed 0 = Inr (Some pairs)"
    using runAttempt_success [OF assms] by blast
  then have res: "matchWishes players wishes seed = Inr pairs"
    by (simp add: matchWishes_def matchLoop.simps [of _ _ _ 0])
  have "distinct (map pickerId pairs) \<and> set (map pickerId pairs) = p_id ` set players
        \<and> distinct (map wishId pairs)
        \<and> (\<forall>pair \<in> set pairs. \<forall>p \<in> set players. p_id p = pickerId pair \<longrightarrow>
              wishId pair \<in> set (candidateIds players wishes p))
        \<and> (distinct (map p_id players) \<longrightarrow>
              (\<exists>ms'. perfect_matching players wishes ms'
                 \<and> mset (map (\<lambda>pr. (pickerId pr, wishId pr)) pairs)
                     = mset (zip (map p_id players) ms')))"
    if ne: "[] \<notin> p_id ` set players"
  proof -
    note m = runAttempt_matching [OF ne run]
    have "\<exists>ms'. perfect_matching players wishes ms'
            \<and> mset (map (\<lambda>pr. (pickerId pr, wishId pr)) pairs) = mset (zip (map p_id players) ms')"
      if "distinct (map p_id players)"
      using that m by (intro pairs_perfect_matching) simp_all
    with m show ?thesis by blast
  qed
  with run res show ?thesis by blast
qed

theorem perfect_matching_found_witness:
  "perfect_matching [alice, bob] selfTestWishes [js ''wB1'', js ''wA1'']
   \<and> [] \<notin> p_id ` set [alice, bob]
   \<and> distinct (map p_id [alice, bob])
   \<and> (\<exists>pairs. matchWishes [alice, bob] selfTestWishes (js ''seed-1'') = Inr pairs
         \<and> distinct (map wishId pairs)
         \<and> set (map pickerId pairs) = p_id ` set [alice, bob]
         \<and> (\<exists>ms'. perfect_matching [alice, bob] selfTestWishes ms'
               \<and> mset (map (\<lambda>pr. (pickerId pr, wishId pr)) pairs)
                   = mset (zip (map p_id [alice, bob]) ms')))"
proof -
  have h1: "perfect_matching [alice, bob] selfTestWishes [js ''wB1'', js ''wA1'']"
    by code_simp
  have h2: "[] \<notin> p_id ` set [alice, bob]" by (simp add: alice_def bob_def js_def)
  have h3: "distinct (map p_id [alice, bob])" by (simp add: alice_def bob_def js_def)
  from perfect_matching_found [OF h1, of "js ''seed-1''"] h1 h2 h3 show ?thesis by blast
qed

text \<open>
  C2 as it was stated, for every input, fails where a participant's id is the empty string:
  \<open>!cur\<close> takes a wish held by that participant for unassigned. The room has a perfect
  matching, and the first attempt gives \<open>w1\<close> to two pickers.
\<close>

theorem perfect_matching_empty_id_shares_wish:
  "perfect_matching emptyIdPlayers threeWishes [js ''w1'', js ''w3'', js ''w2'']
   \<and> matchWishes emptyIdPlayers threeWishes (js ''s'')
       = Inr [\<lparr>pickerId = js ''y'', wishId = js ''w2''\<rparr>,
              \<lparr>pickerId = js [], wishId = js ''w1''\<rparr>,
              \<lparr>pickerId = js ''x'', wishId = js ''w1''\<rparr>]
   \<and> \<not> distinct (map wishId [\<lparr>pickerId = js ''y'', wishId = js ''w2''\<rparr>,
              \<lparr>pickerId = js [], wishId = js ''w1''\<rparr>,
              \<lparr>pickerId = js ''x'', wishId = js ''w1''\<rparr>])"
proof (intro conjI)
  show "perfect_matching emptyIdPlayers threeWishes [js ''w1'', js ''w3'', js ''w2'']"
    by code_simp
  show "matchWishes emptyIdPlayers threeWishes (js ''s'')
       = Inr [\<lparr>pickerId = js ''y'', wishId = js ''w2''\<rparr>,
              \<lparr>pickerId = js [], wishId = js ''w1''\<rparr>,
              \<lparr>pickerId = js ''x'', wishId = js ''w1''\<rparr>]"
    by code_simp
  show "\<not> distinct (map wishId [\<lparr>pickerId = js ''y'', wishId = js ''w2''\<rparr>,
              \<lparr>pickerId = js [], wishId = js ''w1''\<rparr>,
              \<lparr>pickerId = js ''x'', wishId = js ''w1''\<rparr>])"
    by simp
qed

text \<open>
  C1, amended. For participant ids that are unique and not empty, every list of pairs that
  \<open>matchWishes\<close> returns is a complete valid assignment: the pickers are the participants,
  each once; no wish id occurs twice; the wish that \<open>wishById\<close> holds for a pair's wish id is
  in the wish list, is not owned by the picker, and its owner's group label differs from the
  picker's.
\<close>

theorem matchWishes_valid_assignment:
  assumes "distinct (map p_id players)" and "[] \<notin> p_id ` set players"
    and "matchWishes players wishes seed = Inr pairs"
  shows "mset (map pickerId pairs) = mset (map p_id players)
       \<and> distinct (map wishId pairs)
       \<and> (\<forall>pair \<in> set pairs. \<exists>w \<in> set wishes. w_id w = wishId pair
              \<and> map_of (wishById wishes) (wishId pair) = Some w
              \<and> w_ownerId w \<noteq> pickerId pair
              \<and> groupLabel players (w_ownerId w) \<noteq> groupLabel players (pickerId pair))"
proof -
  have "\<exists>k. runAttempt players wishes seed k = Inr (Some pairs)"
    using assms(3) unfolding matchWishes_def
    by (auto simp: matchLoop_find split: option.splits sum.splits)
  then obtain k where "runAttempt players wishes seed k = Inr (Some pairs)" by blast
  with assms(1,2) show ?thesis by (rule runAttempt_valid)
qed

theorem matchWishes_valid_assignment_witness:
  "distinct (map p_id [alice, bob]) \<and> [] \<notin> p_id ` set [alice, bob]
   \<and> matchWishes [alice, bob] selfTestWishes (js ''seed-1'')
       = Inr [\<lparr>pickerId = js ''A'', wishId = js ''wB1''\<rparr>, \<lparr>pickerId = js ''B'', wishId = js ''wA1''\<rparr>]
   \<and> mset (map pickerId [\<lparr>pickerId = js ''A'', wishId = js ''wB1''\<rparr>, \<lparr>pickerId = js ''B'', wishId = js ''wA1''\<rparr>])
       = mset (map p_id [alice, bob])
   \<and> distinct (map wishId [\<lparr>pickerId = js ''A'', wishId = js ''wB1''\<rparr>, \<lparr>pickerId = js ''B'', wishId = js ''wA1''\<rparr>])"
proof -
  have h1: "distinct (map p_id [alice, bob])" by (simp add: alice_def bob_def js_def)
  have h2: "[] \<notin> p_id ` set [alice, bob]" by (simp add: alice_def bob_def js_def)
  have h3: "matchWishes [alice, bob] selfTestWishes (js ''seed-1'')
       = Inr [\<lparr>pickerId = js ''A'', wishId = js ''wB1''\<rparr>, \<lparr>pickerId = js ''B'', wishId = js ''wA1''\<rparr>]"
    by code_simp
  from matchWishes_valid_assignment [OF h1 h2 h3] h1 h2 h3 show ?thesis by blast
qed

text \<open>
  C1 as it was stated, for every participant list with unique ids, fails where a participant's
  id is the empty string. In the room \<open>emptyIdPlayers\<close> the ids are unique, the two
  participants of group A can only receive \<open>w1\<close>, and the first attempt returns
  \<open>w1\<close> for both.
\<close>

theorem matchWishes_empty_id_shares_wish:
  "distinct (map p_id emptyIdPlayers)
   \<and> matchWishes emptyIdPlayers emptyIdWishes (js ''a'')
       = Inr [\<lparr>pickerId = js [], wishId = js ''w1''\<rparr>,
              \<lparr>pickerId = js ''x'', wishId = js ''w1''\<rparr>,
              \<lparr>pickerId = js ''y'', wishId = js ''w2''\<rparr>]
   \<and> \<not> distinct (map wishId [\<lparr>pickerId = js [], wishId = js ''w1''\<rparr>,
              \<lparr>pickerId = js ''x'', wishId = js ''w1''\<rparr>,
              \<lparr>pickerId = js ''y'', wishId = js ''w2''\<rparr>])"
proof (intro conjI)
  show "distinct (map p_id emptyIdPlayers)" by code_simp
  show "matchWishes emptyIdPlayers emptyIdWishes (js ''a'')
       = Inr [\<lparr>pickerId = js [], wishId = js ''w1''\<rparr>,
              \<lparr>pickerId = js ''x'', wishId = js ''w1''\<rparr>,
              \<lparr>pickerId = js ''y'', wishId = js ''w2''\<rparr>]"
    by code_simp
  show "\<not> distinct (map wishId [\<lparr>pickerId = js [], wishId = js ''w1''\<rparr>,
              \<lparr>pickerId = js ''x'', wishId = js ''w1''\<rparr>,
              \<lparr>pickerId = js ''y'', wishId = js ''w2''\<rparr>])"
    by simp
qed

end
